theory Spec2Isabelle
  imports Main "HOL-Library.Word"
begin

unbundle bit_operations_syntax

section \<open>Byte buffers\<close>

text \<open>
  A Node \<^verbatim>\<open>Buffer\<close> is a list of bytes. The write and read methods of the buffer throw a
  \<^verbatim>\<open>RangeError\<close> when the value does not fit the field or when the field does not lie
  inside the buffer; every such throw is the left branch of a sum. JavaScript numbers that
  hold sizes, widths and offsets are natural numbers here; the values handed to the write
  methods are integers, since the 32-bit bitwise operators of JavaScript give signed results.
  All sizes are taken to lie below \<open>2 ^ 53\<close>, where JavaScript numbers are exact, and
  \<^verbatim>\<open>Buffer.alloc\<close> is taken to succeed.
\<close>

type_synonym byte = "8 word"
type_synonym buffer = "byte list"

datatype error =
    InvalidInput      \<comment> \<open>the constant \<^verbatim>\<open>err\<close>: 'Please give me a square PNG image.'\<close>
  | RangeError        \<comment> \<open>thrown by a buffer method\<close>
  | External string   \<comment> \<open>any rejection of the image library, passed through unchanged\<close>

definition andThen :: "error + 'a \<Rightarrow> ('a \<Rightarrow> error + 'b) \<Rightarrow> error + 'b" where
  "andThen m f = (case m of Inl e \<Rightarrow> Inl e | Inr v \<Rightarrow> f v)"

definition alloc :: "nat \<Rightarrow> buffer" where
  "alloc n = replicate n 0"

text \<open>Byte \<open>k\<close> of a value in little-endian order: \<^verbatim>\<open>(value >>> 8k) & 0xff\<close>.\<close>

definition byteOf :: "int \<Rightarrow> nat \<Rightarrow> byte" where
  "byteOf v k = word_of_int (v div 2 ^ (8 * k))"

definition writeUInt8 :: "buffer \<Rightarrow> int \<Rightarrow> nat \<Rightarrow> error + buffer" where
  "writeUInt8 buf v pos =
     (if v < 0 \<or> 255 < v then Inl RangeError
      else if length buf < pos + 1 then Inl RangeError
      else Inr (buf[pos := byteOf v 0]))"

definition writeUInt16LE :: "buffer \<Rightarrow> int \<Rightarrow> nat \<Rightarrow> error + buffer" where
  "writeUInt16LE buf v pos =
     (if v < 0 \<or> 65535 < v then Inl RangeError
      else if length buf < pos + 2 then Inl RangeError
      else Inr (buf[pos := byteOf v 0, pos + 1 := byteOf v 1]))"

definition writeUInt32LE :: "buffer \<Rightarrow> int \<Rightarrow> nat \<Rightarrow> error + buffer" where
  "writeUInt32LE buf v pos =
     (if v < 0 \<or> 4294967295 < v then Inl RangeError
      else if length buf < pos + 4 then Inl RangeError
      else Inr (buf[pos := byteOf v 0, pos + 1 := byteOf v 1,
                    pos + 2 := byteOf v 2, pos + 3 := byteOf v 3]))"

definition writeInt32LE :: "buffer \<Rightarrow> int \<Rightarrow> nat \<Rightarrow> error + buffer" where
  "writeInt32LE buf v pos =
     (if v < - 2147483648 \<or> 2147483647 < v then Inl RangeError
      else if length buf < pos + 4 then Inl RangeError
      else Inr (buf[pos := byteOf v 0, pos + 1 := byteOf v 1,
                    pos + 2 := byteOf v 2, pos + 3 := byteOf v 3]))"

definition readUInt8 :: "buffer \<Rightarrow> nat \<Rightarrow> error + byte" where
  "readUInt8 buf pos = (if length buf < pos + 1 then Inl RangeError else Inr (buf ! pos))"

text \<open>
  The readers below are the buffer methods that undo the writers. The encoder never calls
  them; they serve to say which number a field of the output holds.
\<close>

definition readUInt16LE :: "buffer \<Rightarrow> nat \<Rightarrow> nat" where
  "readUInt16LE buf pos = unat (buf ! pos) + 256 * unat (buf ! (pos + 1))"

definition readUInt32LE :: "buffer \<Rightarrow> nat \<Rightarrow> nat" where
  "readUInt32LE buf pos =
     unat (buf ! pos) + 256 * unat (buf ! (pos + 1)) + 65536 * unat (buf ! (pos + 2))
       + 16777216 * unat (buf ! (pos + 3))"

definition readInt32LE :: "buffer \<Rightarrow> nat \<Rightarrow> int" where
  "readInt32LE buf pos =
     int (unat (buf ! pos) + 256 * unat (buf ! (pos + 1)) + 65536 * unat (buf ! (pos + 2)))
       + 16777216 * sint (buf ! (pos + 3))"

text \<open>
  \<^verbatim>\<open>Buffer.concat(list, totalLength)\<close>: the buffers of the list one after the other, cut
  or filled with zero bytes to the given total length.
\<close>

definition Buffer_concat :: "buffer list \<Rightarrow> nat \<Rightarrow> buffer" where
  "Buffer_concat bufs totalLength =
     take totalLength (concat bufs) @ replicate (totalLength - length (concat bufs)) 0"

section \<open>The image description\<close>

text \<open>The fields of sharp's \<^verbatim>\<open>OutputInfo\<close> that the encoder reads.\<close>

record OutputInfo =
  info_format :: string
  info_width :: nat
  info_height :: nat
  info_size :: nat

section \<open>Header, directory entry, bitmap info header\<close>

definition getHeader :: "nat \<Rightarrow> error + buffer" where
  "getHeader numOfImages =
     andThen (writeUInt16LE (alloc 6) 0 0) (\<lambda>buf.
     andThen (writeUInt16LE buf 1 2) (\<lambda>buf.
     writeUInt16LE buf (int numOfImages) 4))"

definition getDir :: "OutputInfo \<Rightarrow> nat \<Rightarrow> error + buffer" where
  "getDir info offset =
     (let buf = alloc 16;
          size = info_size info + 40;
          width = (if info_width info \<ge> 256 then 0 else info_width info);
          height = width;
          bpp = 32
      in andThen (writeUInt8 buf (int width) 0) (\<lambda>buf.
         andThen (writeUInt8 buf (int height) 1) (\<lambda>buf.
         andThen (writeUInt8 buf 0 2) (\<lambda>buf.
         andThen (writeUInt8 buf 0 3) (\<lambda>buf.
         andThen (writeUInt16LE buf 1 4) (\<lambda>buf.
         andThen (writeUInt16LE buf bpp 6) (\<lambda>buf.
         andThen (writeUInt32LE buf (int size) 8) (\<lambda>buf.
         writeUInt32LE buf (int offset) 12))))))))"

definition getBmpInfoHeader :: "OutputInfo \<Rightarrow> error + buffer" where
  "getBmpInfoHeader info =
     (let buf = alloc 40;
          width = info_width info;
          height = width * 2;
          bpp = 32
      in andThen (writeUInt32LE buf 40 0) (\<lambda>buf.
         andThen (writeInt32LE buf (int width) 4) (\<lambda>buf.
         andThen (writeInt32LE buf (int height) 8) (\<lambda>buf.
         andThen (writeUInt16LE buf 1 12) (\<lambda>buf.
         andThen (writeUInt16LE buf bpp 14) (\<lambda>buf.
         andThen (writeUInt32LE buf 0 16) (\<lambda>buf.
         andThen (writeUInt32LE buf 0 20) (\<lambda>buf.
         andThen (writeInt32LE buf 0 24) (\<lambda>buf.
         andThen (writeInt32LE buf 0 28) (\<lambda>buf.
         andThen (writeUInt32LE buf 0 32) (\<lambda>buf.
         writeUInt32LE buf 0 36)))))))))))"

section \<open>The pixel encoder\<close>

text \<open>
  Indexing a buffer beyond its end gives \<^verbatim>\<open>undefined\<close> in JavaScript and does not
  throw: \<open>None\<close> here. A bitwise operator reads \<^verbatim>\<open>undefined\<close> as 0 (\<open>ToInt32\<close>), and
  the comparison \<^verbatim>\<open>undefined > 0\<close> is false (\<open>gt0\<close>).
\<close>

definition index :: "buffer \<Rightarrow> nat \<Rightarrow> byte option" where
  "index buffer i = (if i < length buffer then Some (buffer ! i) else None)"

definition ToInt32 :: "byte option \<Rightarrow> 32 word" where
  "ToInt32 v = (case v of None \<Rightarrow> 0 | Some c \<Rightarrow> ucast c)"

definition gt0 :: "byte option \<Rightarrow> bool" where
  "gt0 v = (case v of None \<Rightarrow> False | Some c \<Rightarrow> 0 < unat c)"

record pixel =
  px_r :: "byte option"
  px_g :: "byte option"
  px_b :: "byte option"
  px_a :: "byte option"

definition getColorPixel :: "buffer \<Rightarrow> nat \<Rightarrow> nat \<Rightarrow> nat \<Rightarrow> pixel" where
  "getColorPixel buffer x y width =
     (let pxPos = (y * width + x) * 4
      in \<lparr>px_r = index buffer (pxPos + 0),
          px_g = index buffer (pxPos + 1),
          px_b = index buffer (pxPos + 2),
          px_a = index buffer (pxPos + 3)\<rparr>)"

definition getRowStride :: "nat \<Rightarrow> nat" where
  "getRowStride width =
     (if width mod 32 = 0 then width div 8 else 4 * (width div 32 + 1))"

text \<open>A \<^verbatim>\<open>for\<close> loop over a range whose body may throw: the first throw ends the loop.\<close>

fun foldE :: "('i \<Rightarrow> 's \<Rightarrow> error + 's) \<Rightarrow> 'i list \<Rightarrow> 's \<Rightarrow> error + 's" where
  "foldE body [] s = Inr s"
| "foldE body (i # is) s = (case body i s of Inl e \<Rightarrow> Inl e | Inr s' \<Rightarrow> foldE body is s')"

text \<open>The body of the inner loop of the colour (xor) map, lines 136 to 141.\<close>

definition xorPixel :: "buffer \<Rightarrow> nat \<Rightarrow> nat \<Rightarrow> nat \<Rightarrow> nat \<Rightarrow> buffer \<Rightarrow> error + buffer" where
  "xorPixel data width height y x buf =
     (let px = getColorPixel data x y width;
          newColor = ToInt32 (px_b px) OR push_bit 8 (ToInt32 (px_g px))
                       OR push_bit 16 (ToInt32 (px_r px)) OR push_bit 24 (ToInt32 (px_a px));
          pos = ((height - y - 1) * width + x) * 4
      in writeInt32LE buf (sint newColor) pos)"

text \<open>The body of the inner loop of the transparency (and) map, lines 148 to 162.\<close>

definition andPixel :: "buffer \<Rightarrow> nat \<Rightarrow> nat \<Rightarrow> nat \<Rightarrow> nat \<Rightarrow> nat \<Rightarrow> buffer \<Rightarrow> error + buffer" where
  "andPixel data rawSize width height y x buf =
     (let px = getColorPixel data x y width;
          alpha = (if gt0 (px_a px) then 0 else 1 :: 32 word);
          bitNum = (height - y - 1) * width + x;
          width32 = (if width mod 32 = 0 then width div 32 else width div 32 + 1);
          line = bitNum div width;
          offset = bitNum mod width;
          bitVal = alpha AND 1;
          pos = rawSize + line * width32 * 4 + offset div 8
      in andThen (readUInt8 buf pos) (\<lambda>old.
           let newVal = ucast old OR push_bit (7 - offset mod 8) bitVal
           in writeUInt8 buf (sint newVal) pos))"

definition getDib :: "buffer \<Rightarrow> OutputInfo \<Rightarrow> error + buffer" where
  "getDib data info =
     (let size = info_size info;
          width = info_width info;
          height = width;
          andMapRow = getRowStride width;
          andMapSize = andMapRow * height;
          buf = alloc (size + andMapSize)
      in andThen (foldE (\<lambda>y. foldE (xorPixel data width height y) [0..<width]) [0..<height] buf)
           (\<lambda>buf. foldE (\<lambda>y. foldE (andPixel data size width height y) [0..<width])
                     [0..<height] buf))"

section \<open>The image library\<close>

text \<open>
  The sharp library is not part of the repository. An image of type \<open>'img\<close> is a sharp
  pipeline object, and the four methods the converter calls are the fields of a record:
  \<^verbatim>\<open>toBuffer({ resolveWithObject: true })\<close> gives the encoded or raw bytes and their
  description or rejects, \<^verbatim>\<open>resize(w, h, { kernel })\<close>, \<^verbatim>\<open>clone()\<close> and \<^verbatim>\<open>raw()\<close>
  give the pipeline with one more step.
\<close>

record 'img sharp =
  toBuffer :: "'img \<Rightarrow> error + buffer \<times> OutputInfo"
  resize :: "'img \<Rightarrow> nat \<Rightarrow> nat \<Rightarrow> string \<Rightarrow> 'img"
  clone :: "'img \<Rightarrow> 'img"
  raw :: "'img \<Rightarrow> 'img"

section \<open>The assembler\<close>

text \<open>The variables that the loop of \<^verbatim>\<open>imagesToIco\<close> updates.\<close>

record assembly =
  headerAndIconDir :: "buffer list"
  imageDataArr :: "buffer list"
  len :: nat
  offset :: nat

text \<open>The body of the loop, lines 39 to 51.\<close>

definition addImage :: "'img sharp \<Rightarrow> 'img \<Rightarrow> assembly \<Rightarrow> error + assembly" where
  "addImage S img st =
     andThen (toBuffer S (raw S img)) (\<lambda>(data, info).
     andThen (getDir info (offset st)) (\<lambda>dir.
     andThen (getBmpInfoHeader info) (\<lambda>bmpInfoHeader.
     andThen (getDib data info) (\<lambda>dib.
       Inr \<lparr>headerAndIconDir = headerAndIconDir st @ [dir],
            imageDataArr = imageDataArr st @ [bmpInfoHeader, dib],
            len = len st + (length dir + length bmpInfoHeader + length dib),
            offset = offset st + (length bmpInfoHeader + length dib)\<rparr>))))"

definition imagesToIco :: "'img sharp \<Rightarrow> 'img list \<Rightarrow> error + buffer" where
  "imagesToIco S images =
     andThen (getHeader (length images)) (\<lambda>header.
     andThen (foldE (addImage S) images
                \<lparr>headerAndIconDir = [header], imageDataArr = [],
                 len = length header, offset = length header + 16 * length images\<rparr>) (\<lambda>st.
       Inr (Buffer_concat (headerAndIconDir st @ imageDataArr st) (len st))))"

section \<open>The converter\<close>

text \<open>
  The parameter \<^verbatim>\<open>image\<close> of the source is assigned once, on line 14: \<open>image0\<close> is
  its value on entry and \<open>image1\<close> its value from line 19 on.
\<close>

definition sizeList :: "nat list" where
  "sizeList = [48, 32, 16]"

definition toIco :: "'img sharp \<Rightarrow> 'img \<Rightarrow> error + buffer" where
  "toIco S image0 =
     andThen (toBuffer S image0) (\<lambda>(data, info).
       let size = info_width info
       in if info_format info \<noteq> ''png'' \<or> size \<noteq> info_height info then Inl InvalidInput
          else
            let image1 = (if size \<noteq> 256 then resize S image0 256 256 ''cubic'' else image0);
                resizedImages =
                  map (\<lambda>targetSize. resize S (clone S image1) targetSize targetSize ''cubic'')
                    sizeList
            in imagesToIco S (resizedImages @ [image1]))"

section \<open>Buffer lemmas\<close>

lemma andThen_Inr [simp]: "andThen (Inr v) f = f v"
  by (simp add: andThen_def)

lemma andThen_Inl [simp]: "andThen (Inl e) f = Inl e"
  by (simp add: andThen_def)

lemma andThen_eq_Inr:
  "andThen m f = Inr v \<longleftrightarrow> (\<exists>u. m = Inr u \<and> f u = Inr v)"
  by (cases m) simp_all

lemma length_alloc [simp]: "length (alloc n) = n"
  by (simp add: alloc_def)

lemma nth_alloc [simp]: "i < n \<Longrightarrow> alloc n ! i = 0"
  by (simp add: alloc_def)

lemma unat_byteOf: "unat (byteOf (int v) k) = (v div 2 ^ (8 * k)) mod 256"
proof -
  have "int v div 2 ^ (8 * k) = int (v div 2 ^ (8 * k))"
    by (simp add: zdiv_int)
  then have "byteOf (int v) k = of_nat (v div 2 ^ (8 * k))"
    by (simp add: byteOf_def)
  then show ?thesis
    by (simp add: unat_of_nat)
qed

lemma le32_roundtrip:
  assumes "v < 4294967296"
  shows "unat (byteOf (int v) 0) + 256 * unat (byteOf (int v) 1)
           + 65536 * unat (byteOf (int v) 2) + 16777216 * unat (byteOf (int v) 3) = v"
proof -
  define q1 where "q1 = v div 256"
  define q2 where "q2 = q1 div 256"
  define q3 where "q3 = q2 div 256"
  have top: "q3 < 256"
    using assms unfolding q3_def q2_def q1_def by (simp add: div_mult2_eq[symmetric])
  have 1: "v = v mod 256 + 256 * q1" unfolding q1_def by simp
  have 2: "q1 = q1 mod 256 + 256 * q2" unfolding q2_def by simp
  have 3: "q2 = q2 mod 256 + 256 * q3" unfolding q3_def by simp
  have d2: "v div 65536 = q2"
    unfolding q2_def q1_def by (simp add: div_mult2_eq[symmetric])
  have d3: "v div 16777216 = q3"
    unfolding q3_def q2_def q1_def by (simp add: div_mult2_eq[symmetric])
  have "v = v mod 256 + 256 * (q1 mod 256) + 65536 * (q2 mod 256) + 16777216 * q3"
    using 1 2 3 by linarith
  then show ?thesis
    using top by (simp add: unat_byteOf d2 d3 q1_def[symmetric])
qed

lemma le16_roundtrip:
  assumes "v < 65536"
  shows "unat (byteOf (int v) 0) + 256 * unat (byteOf (int v) 1) = v"
proof -
  have "v div 256 < 256" using assms by simp
  then show ?thesis by (simp add: unat_byteOf)
qed

lemma writeUInt8_ok:
  "0 \<le> v \<Longrightarrow> v \<le> 255 \<Longrightarrow> pos < length buf \<Longrightarrow>
   writeUInt8 buf v pos = Inr (buf[pos := byteOf v 0])"
  by (simp add: writeUInt8_def)

lemma writeUInt16LE_ok:
  "0 \<le> v \<Longrightarrow> v \<le> 65535 \<Longrightarrow> pos + 2 \<le> length buf \<Longrightarrow>
   writeUInt16LE buf v pos = Inr (buf[pos := byteOf v 0, pos + 1 := byteOf v 1])"
  by (simp add: writeUInt16LE_def)

lemma writeUInt32LE_ok:
  "0 \<le> v \<Longrightarrow> v \<le> 4294967295 \<Longrightarrow> pos + 4 \<le> length buf \<Longrightarrow>
   writeUInt32LE buf v pos =
     Inr (buf[pos := byteOf v 0, pos + 1 := byteOf v 1,
              pos + 2 := byteOf v 2, pos + 3 := byteOf v 3])"
  by (simp add: writeUInt32LE_def)

lemma writeInt32LE_ok:
  "- 2147483648 \<le> v \<Longrightarrow> v \<le> 2147483647 \<Longrightarrow> pos + 4 \<le> length buf \<Longrightarrow>
   writeInt32LE buf v pos =
     Inr (buf[pos := byteOf v 0, pos + 1 := byteOf v 1,
              pos + 2 := byteOf v 2, pos + 3 := byteOf v 3])"
  by (simp add: writeInt32LE_def)

section \<open>Word lemmas\<close>

lemma byteOf_sint:
  fixes w :: "32 word"
  assumes "k < 4"
  shows "byteOf (sint w) k = ucast (drop_bit (8 * k) w)"
proof (rule bit_eqI)
  fix n
  assume "possible_bit TYPE(8 word) n"
  then have n: "n < 8" by (simp add: possible_bit_word)
  have "sint w div 2 ^ (8 * k) = drop_bit (8 * k) (sint w)"
    by (simp add: drop_bit_eq_div)
  then have "bit (byteOf (sint w) k) n = bit (sint w) (8 * k + n)"
    using n by (simp add: byteOf_def bit_word_of_int_iff bit_drop_bit_eq)
  also have "\<dots> = bit w (8 * k + n)"
    using n assms by (simp add: bit_sint_iff)
  finally show "bit (byteOf (sint w) k) n = bit (ucast (drop_bit (8 * k) w) :: 8 word) n"
    using n by (simp add: bit_word_ucast_iff bit_drop_bit_eq)
qed

lemma newColor_bytes:
  fixes cb cg cr ca :: byte
  defines "w \<equiv> (ucast cb OR push_bit 8 (ucast cg) OR push_bit 16 (ucast cr)
                   OR push_bit 24 (ucast ca) :: 32 word)"
  shows "byteOf (sint w) 0 = cb" "byteOf (sint w) 1 = cg"
    "byteOf (sint w) 2 = cr" "byteOf (sint w) 3 = ca"
proof -
  have 0: "byteOf (sint w) 0 = ucast w" using byteOf_sint[of 0 w] by simp
  have 1: "byteOf (sint w) 1 = ucast (drop_bit 8 w)" using byteOf_sint[of 1 w] by simp
  have 2: "byteOf (sint w) 2 = ucast (drop_bit 16 w)" using byteOf_sint[of 2 w] by simp
  have 3: "byteOf (sint w) 3 = ucast (drop_bit 24 w)" using byteOf_sint[of 3 w] by simp
  show "byteOf (sint w) 0 = cb"
    unfolding 0 by (rule bit_eqI) (auto simp add: w_def bit_simps dest: bit_imp_le_length)
  show "byteOf (sint w) 1 = cg"
    unfolding 1 by (rule bit_eqI) (auto simp add: w_def bit_simps dest: bit_imp_le_length)
  show "byteOf (sint w) 2 = cr"
    unfolding 2 by (rule bit_eqI) (auto simp add: w_def bit_simps dest: bit_imp_le_length)
  show "byteOf (sint w) 3 = ca"
    unfolding 3 by (rule bit_eqI) (auto simp add: w_def bit_simps dest: bit_imp_le_length)
qed

lemma sint_range32:
  "- 2147483648 \<le> sint (w :: 32 word)" "sint (w :: 32 word) \<le> 2147483647"
  using sint_ge[of w] sint_lt[of w] by simp_all

lemma sint_ucast_byte: "sint (ucast (v :: byte) :: 32 word) = uint v"
proof (rule bit_eqI)
  fix n
  show "bit (sint (ucast v :: 32 word)) n = bit (uint v) n"
    by (cases "n < 31") (auto simp add: bit_simps min_def dest: bit_imp_le_length)
qed

lemma newVal_ucast:
  fixes old :: byte and bv :: "32 word"
  assumes "k < 8" "bv = 0 \<or> bv = 1"
  shows "(ucast old OR push_bit k bv :: 32 word) = ucast (old OR push_bit k (ucast bv :: byte))"
  using assms by (intro bit_eqI) (auto simp add: bit_simps dest: bit_imp_le_length)

lemma newVal_sint:
  fixes old :: byte and bv :: "32 word"
  assumes "k < 8" "bv = 0 \<or> bv = 1"
  shows "sint (ucast old OR push_bit k bv :: 32 word)
           = uint (old OR push_bit k (ucast bv :: byte))"
  using assms by (simp only: newVal_ucast sint_ucast_byte)

lemma byteOf_uint: "byteOf (uint (v :: byte)) 0 = v"
  by (simp add: byteOf_def)

lemma uint_byte_range: "0 \<le> uint (v :: byte)" "uint (v :: byte) \<le> 255"
  using uint_lt2p[of v] by simp_all

section \<open>Loops\<close>

lemma foldE_append:
  "foldE body (xs @ ys) s = andThen (foldE body xs s) (foldE body ys)"
  by (induction xs arbitrary: s) (simp_all split: sum.splits)

lemma foldE_inv:
  assumes "foldE body xs s = Inr s'" and "P s"
    and "\<And>i t t'. i \<in> set xs \<Longrightarrow> P t \<Longrightarrow> body i t = Inr t' \<Longrightarrow> P t'"
  shows "P s'"
  using assms
proof (induction xs arbitrary: s)
  case Nil
  then show ?case by simp
next
  case (Cons i xs)
  from Cons.prems(1) obtain t where t: "body i s = Inr t" and rest: "foldE body xs t = Inr s'"
    by (auto split: sum.splits)
  have "P t" using Cons.prems(2,3) t by (meson list.set_intros(1))
  show ?case
  proof (rule Cons.IH[OF rest \<open>P t\<close>])
    fix j u u'
    assume "j \<in> set xs" "P u" "body j u = Inr u'"
    then show "P u'" using Cons.prems(3)[of j u u'] by simp
  qed
qed

lemma foldE_total:
  assumes "P s"
    and "\<And>i t. i \<in> set xs \<Longrightarrow> P t \<Longrightarrow> \<exists>t'. body i t = Inr t' \<and> P t'"
  shows "\<exists>s'. foldE body xs s = Inr s' \<and> P s'"
  using assms
proof (induction xs arbitrary: s)
  case Nil
  then show ?case by simp
next
  case (Cons i xs)
  from Cons.prems(2)[of i s] Cons.prems(1) obtain t where t: "body i s = Inr t" "P t"
    by auto
  have "\<exists>s'. foldE body xs t = Inr s' \<and> P s'"
  proof (rule Cons.IH[OF t(2)])
    fix j u
    assume "j \<in> set xs" "P u"
    then show "\<exists>t'. body j u = Inr t' \<and> P t'" using Cons.prems(2)[of j u] by simp
  qed
  then show ?case
    using t(1) by simp
qed

section \<open>Pixel positions\<close>

lemma cell_bound:
  fixes W :: nat
  assumes "x < W" "row < W"
  shows "row * W + x < W * W"
proof -
  have "row * W + x < row * W + W" using assms(1) by simp
  also have "\<dots> = Suc row * W" by simp
  also have "\<dots> \<le> W * W" using assms(2) by (intro mult_le_mono1) simp
  finally show ?thesis .
qed

lemma flip_row: "y < (W::nat) \<Longrightarrow> W - y - 1 < W"
  by simp

lemma cell_inj:
  fixes W :: nat
  assumes "x < W" "x' < W" "row * W + x = row' * W + x'"
  shows "row = row' \<and> x = x'"
proof -
  have "(row * W + x) div W = row" "(row' * W + x') div W = row'"
    using assms(1,2) by simp_all
  then have "row = row'" using assms(3) by simp
  then show ?thesis using assms(3) by simp
qed


lemma getRowStride_width32:
  "(if W mod 32 = 0 then W div 32 else W div 32 + 1) * 4 = getRowStride W"
proof (cases "W mod 32 = 0")
  case True
  then obtain q where "W = 32 * q" by (auto simp add: mod_eq_0_iff_dvd)
  then show ?thesis by (simp add: getRowStride_def)
next
  case False
  then show ?thesis by (simp add: getRowStride_def)
qed

lemma stride_bound:
  assumes "x < W"
  shows "x div 8 < getRowStride W"
proof (cases "W mod 32 = 0")
  case True
  then obtain q where q: "W = 32 * q" by (auto simp add: mod_eq_0_iff_dvd)
  have "x div 8 < 4 * q" using assms q by simp
  then show ?thesis using q by (simp add: getRowStride_def)
next
  case False
  have "W < 32 * (W div 32 + 1)"
  proof -
    define q m where "q = W div 32" and "m = W mod 32"
    have "m < 32" by (simp add: m_def)
    moreover have "W = q * 32 + m" by (simp add: q_def m_def)
    ultimately have "W < 32 * (q + 1)" by simp
    then show ?thesis by (simp add: q_def)
  qed
  then have "x < 8 * (4 * (W div 32 + 1))" using assms by simp
  then have "x div 8 < 4 * (W div 32 + 1)"
    by (simp add: less_mult_imp_div_less mult.commute)
  then show ?thesis using False by (simp add: getRowStride_def)
qed

lemma foldE_establish:
  assumes "distinct xs" "k \<in> set xs" "L s"
    and pre: "\<And>i t. i \<in> set xs \<Longrightarrow> i \<noteq> k \<Longrightarrow> L t \<Longrightarrow> \<exists>t'. body i t = Inr t' \<and> L t'"
    and est: "\<And>t. L t \<Longrightarrow> \<exists>t'. body k t = Inr t' \<and> Q t'"
    and post: "\<And>i t. i \<in> set xs \<Longrightarrow> i \<noteq> k \<Longrightarrow> Q t \<Longrightarrow> \<exists>t'. body i t = Inr t' \<and> Q t'"
  shows "\<exists>s'. foldE body xs s = Inr s' \<and> Q s'"
  using assms(1,2,3) pre post
proof (induction xs arbitrary: s)
  case Nil
  then show ?case by simp
next
  case (Cons i xs)
  show ?case
  proof (cases "i = k")
    case True
    from est[OF Cons.prems(3)] obtain t where t: "body k s = Inr t" "Q t" by auto
    have notin: "k \<notin> set xs" using Cons.prems(1) True by simp
    have "\<exists>s'. foldE body xs t = Inr s' \<and> Q s'"
    proof (rule foldE_total[of Q, OF t(2)])
      fix j u
      assume j: "j \<in> set xs" and "Q u"
      then show "\<exists>t'. body j u = Inr t' \<and> Q t'"
        using Cons.prems(5)[of j u] notin by auto
    qed
    then show ?thesis using t(1) True by simp
  next
    case False
    from Cons.prems(4)[of i s] False Cons.prems(3) obtain t where t: "body i s = Inr t" "L t"
      by auto
    have "\<exists>s'. foldE body xs t = Inr s' \<and> Q s'"
    proof (rule Cons.IH)
      show "distinct xs" using Cons.prems(1) by simp
      show "k \<in> set xs" using Cons.prems(2) False by simp
      show "L t" by (rule t(2))
    next
      fix j u
      assume "j \<in> set xs" "j \<noteq> k" "L u"
      then show "\<exists>t'. body j u = Inr t' \<and> L t'" using Cons.prems(4)[of j u] by simp
    next
      fix j u
      assume "j \<in> set xs" "j \<noteq> k" "Q u"
      then show "\<exists>t'. body j u = Inr t' \<and> Q t'" using Cons.prems(5)[of j u] by simp
    qed
    then show ?thesis using t(1) by simp
  qed
qed

lemma index_in: "i < length buf \<Longrightarrow> index buf i = Some (buf ! i)"
  by (simp add: index_def)

lemma writeInt32LE_sint:
  fixes w :: "32 word"
  assumes "pos + 4 \<le> length buf"
  shows "writeInt32LE buf (sint w) pos =
     Inr (buf[pos := byteOf (sint w) 0, pos + 1 := byteOf (sint w) 1,
              pos + 2 := byteOf (sint w) 2, pos + 3 := byteOf (sint w) 3])"
  using assms sint_range32[of w] by (simp add: writeInt32LE_ok)

lemma xorPixel_step:
  assumes len: "length t = n" and fits: "((H - y - 1) * W + x) * 4 + 4 \<le> n"
  shows "\<exists>t'. xorPixel data W H y x t = Inr t' \<and> length t' = n
           \<and> (\<forall>i. i < ((H - y - 1) * W + x) * 4 \<or> ((H - y - 1) * W + x) * 4 + 4 \<le> i \<longrightarrow> t' ! i = t ! i)
           \<and> ((y * W + x) * 4 + 3 < length data \<longrightarrow>
                t' ! (((H - y - 1) * W + x) * 4) = data ! ((y * W + x) * 4 + 2)
              \<and> t' ! (((H - y - 1) * W + x) * 4 + 1) = data ! ((y * W + x) * 4 + 1)
              \<and> t' ! (((H - y - 1) * W + x) * 4 + 2) = data ! ((y * W + x) * 4)
              \<and> t' ! (((H - y - 1) * W + x) * 4 + 3) = data ! ((y * W + x) * 4 + 3))"
proof -
  define pos where "pos = ((H - y - 1) * W + x) * 4"
  define px where "px = getColorPixel data x y W"
  define w where "w = ToInt32 (px_b px) OR push_bit 8 (ToInt32 (px_g px))
                       OR push_bit 16 (ToInt32 (px_r px)) OR push_bit 24 (ToInt32 (px_a px))"
  define t' where "t' = t[pos := byteOf (sint w) 0, pos + 1 := byteOf (sint w) 1,
              pos + 2 := byteOf (sint w) 2, pos + 3 := byteOf (sint w) 3]"
  have fits': "pos + 4 \<le> length t" using fits len by (simp add: pos_def)
  have run: "xorPixel data W H y x t = Inr t'"
    unfolding xorPixel_def Let_def px_def[symmetric] w_def[symmetric] pos_def[symmetric] t'_def
    by (rule writeInt32LE_sint[OF fits'])
  have l: "length t' = n" using len by (simp add: t'_def)
  have frame: "\<forall>i. i < pos \<or> pos + 4 \<le> i \<longrightarrow> t' ! i = t ! i"
    by (auto simp add: t'_def)
  have vals: "t' ! pos = byteOf (sint w) 0" "t' ! (pos + 1) = byteOf (sint w) 1"
    "t' ! (pos + 2) = byteOf (sint w) 2" "t' ! (pos + 3) = byteOf (sint w) 3"
    using fits' by (simp_all add: t'_def)
  have chan: "(y * W + x) * 4 + 3 < length data \<longrightarrow>
      byteOf (sint w) 0 = data ! ((y * W + x) * 4 + 2) \<and> byteOf (sint w) 1 = data ! ((y * W + x) * 4 + 1)
    \<and> byteOf (sint w) 2 = data ! ((y * W + x) * 4) \<and> byteOf (sint w) 3 = data ! ((y * W + x) * 4 + 3)"
  proof
    define p where "p = (y * W + x) * 4"
    assume "(y * W + x) * 4 + 3 < length data"
    then have inb: "p + 3 < length data" by (simp add: p_def)
    have ch: "px_r px = Some (data ! p)" "px_g px = Some (data ! (p + 1))"
      "px_b px = Some (data ! (p + 2))" "px_a px = Some (data ! (p + 3))"
      using inb by (simp_all add: px_def getColorPixel_def Let_def index_in p_def)
    have w: "w = ucast (data ! (p + 2)) OR push_bit 8 (ucast (data ! (p + 1)))
                   OR push_bit 16 (ucast (data ! p)) OR push_bit 24 (ucast (data ! (p + 3)))"
      by (simp only: w_def ch ToInt32_def option.case)
    show "byteOf (sint w) 0 = data ! ((y * W + x) * 4 + 2) \<and> byteOf (sint w) 1 = data ! ((y * W + x) * 4 + 1)
      \<and> byteOf (sint w) 2 = data ! ((y * W + x) * 4) \<and> byteOf (sint w) 3 = data ! ((y * W + x) * 4 + 3)"
      unfolding p_def[symmetric] w by (simp only: newColor_bytes simp_thms)
  qed
  show ?thesis
    using run l frame vals chan unfolding pos_def[symmetric] by auto
qed

lemma cell_div: "x < (W::nat) \<Longrightarrow> (row * W + x) div W = row"
  by simp

lemma cell_mod: "x < (W::nat) \<Longrightarrow> (row * W + x) mod W = x"
  by simp

lemma andPixel_step:
  assumes len: "length t = n" and x: "x < W"
    and fits: "rawSize + (H - y - 1) * getRowStride W + x div 8 < n"
  shows "\<exists>t'. andPixel data rawSize W H y x t = Inr t' \<and> length t' = n
           \<and> (\<forall>i. i \<noteq> rawSize + (H - y - 1) * getRowStride W + x div 8 \<longrightarrow> t' ! i = t ! i)
           \<and> t' ! (rawSize + (H - y - 1) * getRowStride W + x div 8)
               = t ! (rawSize + (H - y - 1) * getRowStride W + x div 8)
                   OR push_bit (7 - x mod 8) (if gt0 (index data ((y * W + x) * 4 + 3)) then 0 else 1)"
proof -
  define pos where "pos = rawSize + (H - y - 1) * getRowStride W + x div 8"
  define c :: "32 word" where "c = (if gt0 (index data ((y * W + x) * 4 + 3)) then 0 else 1)"
  define v :: byte where "v = t ! pos OR push_bit (7 - x mod 8) (ucast (c AND 1))"
  have c01: "c AND 1 = 0 \<or> c AND 1 = 1" by (simp add: c_def)
  have k: "7 - x mod 8 < 8" by simp
  have inb: "pos < length t" using fits len by (simp add: pos_def)
  have rd: "readUInt8 t pos = Inr (t ! pos)" using inb by (simp add: readUInt8_def)
  have wr: "writeUInt8 t (sint (ucast (t ! pos) OR push_bit (7 - x mod 8) (c AND 1) :: 32 word)) pos = Inr (t[pos := v])"
    unfolding newVal_sint[OF k c01] v_def[symmetric]
    using inb uint_byte_range[of v] by (simp add: writeUInt8_ok byteOf_uint)
  have pxa: "px_a (getColorPixel data x y W) = index data ((y * W + x) * 4 + 3)"
    by (simp add: getColorPixel_def Let_def)
  have run: "andPixel data rawSize W H y x t = Inr (t[pos := v])"
    unfolding andPixel_def Let_def cell_div[OF x] cell_mod[OF x] mult.assoc
      getRowStride_width32 pos_def[symmetric]
    by (simp only: pxa c_def[symmetric] rd andThen_Inr wr)
  have v': "v = t ! pos OR push_bit (7 - x mod 8) (if gt0 (index data ((y * W + x) * 4 + 3)) then 0 else 1)"
    by (simp add: v_def c_def)
  show ?thesis
    using run len inb v' unfolding pos_def[symmetric] by auto
qed

lemma xor_fits:
  fixes W :: nat
  assumes "x < W" "y < W" "W * W * 4 \<le> n"
  shows "((W - y - 1) * W + x) * 4 + 4 \<le> n"
proof -
  have "(W - y - 1) * W + x < W * W"
    using assms(1,2) by (intro cell_bound) simp_all
  then show ?thesis using assms(3) by simp
qed

lemma and_fits:
  fixes W :: nat
  assumes "x < W" "y < W"
  shows "rawSize + (W - y - 1) * getRowStride W + x div 8 < rawSize + getRowStride W * W"
proof -
  have "(W - y - 1) * getRowStride W + x div 8 < (W - y - 1) * getRowStride W + getRowStride W"
    using stride_bound[OF assms(1)] by simp
  also have "\<dots> = Suc (W - y - 1) * getRowStride W" by simp
  also have "\<dots> \<le> W * getRowStride W"
    using assms(2) by (intro mult_le_mono1) simp
  finally show ?thesis by (simp add: mult.commute)
qed

lemma and_above:
  "rawSize \<le> rawSize + (W - y - 1) * getRowStride W + x div 8"
  by simp

lemma xorPixel_length:
  assumes "xorPixel data W H y x t = Inr t'"
  shows "length t' = length t"
  using assms unfolding xorPixel_def Let_def writeInt32LE_def
  by (auto split: if_splits)

lemma andPixel_length:
  assumes "andPixel data rawSize W H y x t = Inr t'"
  shows "length t' = length t"
  using assms unfolding andPixel_def Let_def writeUInt8_def readUInt8_def
  by (auto simp add: andThen_eq_Inr split: if_splits)

lemma getDib_unfold:
  "getDib data info =
     andThen (foldE (\<lambda>y. foldE (xorPixel data (info_width info) (info_width info) y) [0..<info_width info])
                [0..<info_width info] (alloc (info_size info + getRowStride (info_width info) * info_width info)))
       (foldE (\<lambda>y. foldE (andPixel data (info_size info) (info_width info) (info_width info) y) [0..<info_width info])
                [0..<info_width info])"
  by (simp add: getDib_def Let_def)

lemma getDib_length:
  assumes "getDib data info = Inr dib"
  shows "length dib = info_size info + getRowStride (info_width info) * info_width info"
proof -
  define n where "n = info_size info + getRowStride (info_width info) * info_width info"
  define W where "W = info_width info"
  from assms obtain mid where
    mid: "foldE (\<lambda>y. foldE (xorPixel data W W y) [0..<W]) [0..<W] (alloc n) = Inr mid"
    and fin: "foldE (\<lambda>y. foldE (andPixel data (info_size info) W W y) [0..<W]) [0..<W] mid = Inr dib"
    unfolding getDib_unfold andThen_eq_Inr n_def W_def by auto
  have "length mid = n"
  proof (rule foldE_inv[OF mid, of "\<lambda>t. length t = n"])
    show "length (alloc n) = n" by simp
  next
    fix y t t'
    assume "length t = n" and row: "foldE (xorPixel data W W y) [0..<W] t = Inr t'"
    then show "length t' = n"
      by (intro foldE_inv[OF row, of "\<lambda>t. length t = n"]) (auto dest: xorPixel_length)
  qed
  then have "length dib = n"
  proof (intro foldE_inv[OF fin, of "\<lambda>t. length t = n"])
    fix y t t'
    assume "length t = n" and row: "foldE (andPixel data (info_size info) W W y) [0..<W] t = Inr t'"
    then show "length t' = n"
      by (intro foldE_inv[OF row, of "\<lambda>t. length t = n"]) (auto dest: andPixel_length)
  qed
  then show ?thesis by (simp add: n_def)
qed

text \<open>Both loops, for an invariant that every pixel step keeps.\<close>

lemma xorLoop_keeps:
  assumes "P s"
    and "\<And>y x t. y < W \<Longrightarrow> x < W \<Longrightarrow> P t \<Longrightarrow> \<exists>t'. xorPixel data W H y x t = Inr t' \<and> P t'"
  shows "\<exists>s'. foldE (\<lambda>y. foldE (xorPixel data W H y) [0..<W]) [0..<W] s = Inr s' \<and> P s'"
proof (rule foldE_total[of P, OF assms(1)])
  fix y t
  assume "y \<in> set [0..<W]" "P t"
  then show "\<exists>t'. foldE (xorPixel data W H y) [0..<W] t = Inr t' \<and> P t'"
    by (intro foldE_total[of P]) (auto intro: assms(2))
qed

lemma andLoop_keeps:
  assumes "P s"
    and "\<And>y x t. y < W \<Longrightarrow> x < W \<Longrightarrow> P t \<Longrightarrow> \<exists>t'. andPixel data rawSize W H y x t = Inr t' \<and> P t'"
  shows "\<exists>s'. foldE (\<lambda>y. foldE (andPixel data rawSize W H y) [0..<W]) [0..<W] s = Inr s' \<and> P s'"
proof (rule foldE_total[of P, OF assms(1)])
  fix y t
  assume "y \<in> set [0..<W]" "P t"
  then show "\<exists>t'. foldE (andPixel data rawSize W H y) [0..<W] t = Inr t' \<and> P t'"
    by (intro foldE_total[of P]) (auto intro: assms(2))
qed

text \<open>Both loops, for a step at one pixel that establishes Q from L.\<close>

lemma nested_establish:
  assumes "y0 < W" "x0 < W" "L s"
    and pre: "\<And>y x t. y < W \<Longrightarrow> x < W \<Longrightarrow> (y, x) \<noteq> (y0, x0) \<Longrightarrow> L t \<Longrightarrow> \<exists>t'. step y x t = Inr t' \<and> L t'"
    and est: "\<And>t. L t \<Longrightarrow> \<exists>t'. step y0 x0 t = Inr t' \<and> Q t'"
    and post: "\<And>y x t. y < W \<Longrightarrow> x < W \<Longrightarrow> (y, x) \<noteq> (y0, x0) \<Longrightarrow> Q t \<Longrightarrow> \<exists>t'. step y x t = Inr t' \<and> Q t'"
  shows "\<exists>s'. foldE (\<lambda>y. foldE (step y) [0..<W]) [0..<W] s = Inr s' \<and> Q s'"
proof (rule foldE_establish[of "[0..<W]" y0 L, OF _ _ assms(3)])
  show "distinct [0..<W]" by simp
  show "y0 \<in> set [0..<W]" using assms(1) by simp
next
  fix y t
  assume "y \<in> set [0..<W]" "y \<noteq> y0" "L t"
  then show "\<exists>t'. foldE (step y) [0..<W] t = Inr t' \<and> L t'"
    by (intro foldE_total[of L]) (auto intro: pre)
next
  fix t
  assume "L t"
  then show "\<exists>t'. foldE (step y0) [0..<W] t = Inr t' \<and> Q t'"
    using assms(1,2)
    by (intro foldE_establish[of "[0..<W]" x0 L _ "step y0" Q]) (auto intro: pre est post)
next
  fix y t
  assume "y \<in> set [0..<W]" "y \<noteq> y0" "Q t"
  then show "\<exists>t'. foldE (step y) [0..<W] t = Inr t' \<and> Q t'"
    by (intro foldE_total[of Q]) (auto intro: post)
qed

lemma apart4: "(c::nat) \<noteq> d \<Longrightarrow> d * 4 + 4 \<le> c * 4 \<or> c * 4 + 4 \<le> d * 4"
  by arith

lemma cells_apart:
  fixes W :: nat
  assumes "x < W" "x' < W" "(row, x) \<noteq> (row', x')"
  shows "(row' * W + x') * 4 + 4 \<le> (row * W + x) * 4 \<or> (row * W + x) * 4 + 4 \<le> (row' * W + x') * 4"
proof -
  have "row * W + x \<noteq> row' * W + x'"
    using cell_inj[OF assms(1,2)] assms(3) by auto
  then show ?thesis by (rule apart4)
qed

lemma take4_drop:
  assumes "pos + 4 \<le> length xs"
  shows "take 4 (drop pos xs) = [xs ! pos, xs ! (pos + 1), xs ! (pos + 2), xs ! (pos + 3)]"
proof -
  have 0: "drop pos xs = xs ! pos # drop (pos + 1) xs"
    using assms by (simp add: Cons_nth_drop_Suc)
  have 1: "drop (pos + 1) xs = xs ! (pos + 1) # drop (pos + 2) xs"
    using assms Cons_nth_drop_Suc[of "pos + 1" xs] by simp
  have 2: "drop (pos + 2) xs = xs ! (pos + 2) # drop (pos + 3) xs"
    using assms Cons_nth_drop_Suc[of "pos + 2" xs] by (simp add: numeral_3_eq_3)
  have 3: "drop (pos + 3) xs = xs ! (pos + 3) # drop (pos + 4) xs"
    using assms Cons_nth_drop_Suc[of "pos + 3" xs] by (simp add: eval_nat_numeral)
  show ?thesis
    unfolding 0 1 2 3 by simp
qed

lemma flip_inj: "y < (W::nat) \<Longrightarrow> y' < W \<Longrightarrow> W - y - 1 = W - y' - 1 \<Longrightarrow> y = y'"
  by linarith

section \<open>The colour map\<close>

text \<open>
  Claim C1. For a square RGBA8 buffer of width and height \<open>W\<close>, the pixel encoder returns,
  and the pixel in column \<open>x\<close> of row \<open>y\<close> (counted from the top) with channels
  \<open>r, g, b, a\<close> at the input bytes \<open>(y * W + x) * 4 + 0, 1, 2, 3\<close> is stored as the four
  bytes \<open>b, g, r, a\<close> at the output offset \<open>((W - 1 - y) * W + x) * 4\<close>, whatever the
  channel values are; read as a little-endian word this is
  \<open>b + 256 * g + 65536 * r + 16777216 * a\<close>.
\<close>

theorem getDib_colour_map:
  assumes width: "info_width info = W"
    and size: "info_size info = W * W * 4"
    and data: "length data = W * W * 4"
    and x: "x < W" and y: "y < W"
  shows "\<exists>dib. getDib data info = Inr dib
           \<and> take 4 (drop (((W - 1 - y) * W + x) * 4) dib)
               = [data ! ((y * W + x) * 4 + 2), data ! ((y * W + x) * 4 + 1),
                  data ! ((y * W + x) * 4), data ! ((y * W + x) * 4 + 3)]
           \<and> readUInt32LE dib (((W - 1 - y) * W + x) * 4)
               = unat (data ! ((y * W + x) * 4 + 2)) + 256 * unat (data ! ((y * W + x) * 4 + 1))
                 + 65536 * unat (data ! ((y * W + x) * 4)) + 16777216 * unat (data ! ((y * W + x) * 4 + 3))"
proof -
  define n where "n = W * W * 4 + getRowStride W * W"
  define pos where "pos = ((W - y - 1) * W + x) * 4"
  define p where "p = (y * W + x) * 4"
  define Q where "Q t \<longleftrightarrow> length t = n \<and> t ! pos = data ! (p + 2) \<and> t ! (pos + 1) = data ! (p + 1)
                        \<and> t ! (pos + 2) = data ! p \<and> t ! (pos + 3) = data ! (p + 3)" for t
  define L where "L t \<longleftrightarrow> length t = n" for t :: buffer
  have big: "W * W * 4 \<le> n" by (simp add: n_def)
  have pin: "p + 3 < length data"
    using cell_bound[OF x y] data by (simp add: p_def)
  have posin: "pos + 4 \<le> W * W * 4"
    using xor_fits[OF x y order_refl] by (simp add: pos_def)
  have xor_L: "\<exists>t'. xorPixel data W W y' x' t = Inr t' \<and> L t'" if "y' < W" "x' < W" "L t" for y' x' t
    using xorPixel_step[of t n W y' W x' data] xor_fits[OF that(2,1) big] that(3)
    by (auto simp add: L_def)
  have xor_est: "\<exists>t'. xorPixel data W W y x t = Inr t' \<and> Q t'" if "L t" for t
    using xorPixel_step[of t n W y W x data] xor_fits[OF x y big] that pin
    unfolding L_def Q_def pos_def p_def by auto
  have xor_Q: "\<exists>t'. xorPixel data W W y' x' t = Inr t' \<and> Q t'"
    if "y' < W" "x' < W" "(y', x') \<noteq> (y, x)" "Q t" for y' x' t
  proof -
    have "(W - y - 1, x) \<noteq> (W - y' - 1, x')"
      using that(1,3) y flip_inj[of y W y'] by auto
    from cells_apart[OF x that(2) this]
    have apart: "((W - y' - 1) * W + x') * 4 + 4 \<le> pos \<or> pos + 4 \<le> ((W - y' - 1) * W + x') * 4"
      by (simp add: pos_def)
    from xorPixel_step[of t n W y' W x' data] xor_fits[OF that(2,1) big] that(4)
    obtain t' where t': "xorPixel data W W y' x' t = Inr t'" "length t' = n"
      "\<forall>i. i < ((W - y' - 1) * W + x') * 4 \<or> ((W - y' - 1) * W + x') * 4 + 4 \<le> i \<longrightarrow> t' ! i = t ! i"
      unfolding Q_def by blast
    have "t' ! pos = t ! pos" "t' ! (pos + 1) = t ! (pos + 1)" "t' ! (pos + 2) = t ! (pos + 2)"
      "t' ! (pos + 3) = t ! (pos + 3)"
      using apart t'(3) by auto
    then have "Q t'" using that(4) t'(2) by (simp add: Q_def)
    then show ?thesis using t'(1) by blast
  qed
  have and_Q: "\<exists>t'. andPixel data (W * W * 4) W W y' x' t = Inr t' \<and> Q t'"
    if "y' < W" "x' < W" "Q t" for y' x' t
  proof -
    from andPixel_step[of t n x' W "W * W * 4" W y' data] and_fits[OF that(2,1), of "W * W * 4"] that(2,3)
    obtain t' where t': "andPixel data (W * W * 4) W W y' x' t = Inr t'" "length t' = n"
      "\<forall>i. i \<noteq> W * W * 4 + (W - y' - 1) * getRowStride W + x' div 8 \<longrightarrow> t' ! i = t ! i"
      unfolding Q_def n_def by blast
    have "t' ! pos = t ! pos" "t' ! (pos + 1) = t ! (pos + 1)" "t' ! (pos + 2) = t ! (pos + 2)"
      "t' ! (pos + 3) = t ! (pos + 3)"
      using posin t'(3) by auto
    then have "Q t'" using that(3) t'(2) by (simp add: Q_def)
    then show ?thesis using t'(1) by blast
  qed
  have "L (alloc n)" by (simp add: L_def)
  from nested_establish[of y W x L "alloc n" "xorPixel data W W" Q, OF y x this xor_L xor_est xor_Q]
  obtain mid where mid: "foldE (\<lambda>y. foldE (xorPixel data W W y) [0..<W]) [0..<W] (alloc n) = Inr mid" "Q mid"
    by blast
  from andLoop_keeps[of Q mid W data "W * W * 4" W, OF mid(2) and_Q]
  obtain dib where dib: "foldE (\<lambda>y. foldE (andPixel data (W * W * 4) W W y) [0..<W]) [0..<W] mid = Inr dib" "Q dib"
    by blast
  have run: "getDib data info = Inr dib"
    unfolding getDib_unfold width size n_def[symmetric] using mid(1) dib(1) by simp
  have inb: "pos + 4 \<le> length dib" using posin dib(2) big by (simp add: Q_def)
  have "take 4 (drop pos dib) = [dib ! pos, dib ! (pos + 1), dib ! (pos + 2), dib ! (pos + 3)]"
    using inb by (rule take4_drop)
  then have bytes: "take 4 (drop pos dib) = [data ! (p + 2), data ! (p + 1), data ! p, data ! (p + 3)]"
    using dib(2) by (simp add: Q_def)
  have word: "readUInt32LE dib pos = unat (data ! (p + 2)) + 256 * unat (data ! (p + 1))
                 + 65536 * unat (data ! p) + 16777216 * unat (data ! (p + 3))"
    using dib(2) by (simp add: Q_def readUInt32LE_def)
  have pos': "((W - 1 - y) * W + x) * 4 = pos" by (simp add: pos_def)
  show ?thesis
    using run bytes word unfolding pos' p_def by blast
qed

theorem getDib_colour_map_witness:
  "info_width \<lparr>info_format = ''raw'', info_width = 1, info_height = 1, info_size = 4\<rparr> = 1
   \<and> length [10, 20, 30, 255 :: byte] = 1 * 1 * 4 \<and> (0::nat) < 1
   \<and> (\<exists>dib. getDib [10, 20, 30, 255]
               \<lparr>info_format = ''raw'', info_width = 1, info_height = 1, info_size = 4\<rparr> = Inr dib
          \<and> take 4 (drop 0 dib) = [30, 20, 10, 255]
          \<and> readUInt32LE dib 0 = 30 + 256 * 20 + 65536 * 10 + 16777216 * 255)"
  using getDib_colour_map[of "\<lparr>info_format = ''raw'', info_width = 1, info_height = 1, info_size = 4\<rparr>"
      1 "[10, 20, 30, 255]" 0 0]
  by simp

section \<open>The transparency mask\<close>

lemma mask_pos_inj:
  assumes "x < W" "x' < W"
    and "row * getRowStride W + x div 8 = row' * getRowStride W + x' div 8"
  shows "row = row' \<and> x div 8 = x' div 8"
  using cell_inj[OF stride_bound[OF assms(1)] stride_bound[OF assms(2)] assms(3)] .

lemma div_mod_8_inj: "(x::nat) div 8 = x' div 8 \<Longrightarrow> x mod 8 = x' mod 8 \<Longrightarrow> x = x'"
  by (metis div_mult_mod_eq)

lemma bit_mask_byte:
  fixes v :: byte
  assumes "k < 8" "j < 8"
  shows "bit (v OR push_bit k (if c then 0 else 1)) j = (bit v j \<or> (j = k \<and> \<not> c))"
  using assms by (auto simp add: bit_simps)

lemma gt0_in: "i < length data \<Longrightarrow> gt0 (index data i) = (data ! i \<noteq> 0)"
  by (simp add: gt0_def index_in unat_gt_0)

lemma andPixel_bit:
  assumes len: "length t = n" and x': "x' < W" and y': "y' < W" and x: "x < W" and y: "y < W"
    and n: "n = rawSize + getRowStride W * W" and j: "j < 8"
  shows "\<exists>t'. andPixel data rawSize W W y' x' t = Inr t' \<and> length t' = n
           \<and> (\<forall>i < rawSize. t' ! i = t ! i)
           \<and> (bit (t' ! (rawSize + (W - y - 1) * getRowStride W + x div 8)) j
                = (bit (t ! (rawSize + (W - y - 1) * getRowStride W + x div 8)) j
                     \<or> (y' = y \<and> x' div 8 = x div 8 \<and> j = 7 - x' mod 8
                          \<and> \<not> gt0 (index data ((y' * W + x') * 4 + 3)))))"
proof -
  define pos' where "pos' = rawSize + (W - y' - 1) * getRowStride W + x' div 8"
  define pos where "pos = rawSize + (W - y - 1) * getRowStride W + x div 8"
  have fits: "pos' < n" using and_fits[OF x' y', of rawSize] by (simp add: pos'_def n)
  from andPixel_step[OF len x', of rawSize W y' data] fits
  obtain t' where t': "andPixel data rawSize W W y' x' t = Inr t'" "length t' = n"
    "\<forall>i. i \<noteq> pos' \<longrightarrow> t' ! i = t ! i"
    "t' ! pos' = t ! pos' OR push_bit (7 - x' mod 8) (if gt0 (index data ((y' * W + x') * 4 + 3)) then 0 else 1)"
    unfolding pos'_def by blast
  have low: "\<forall>i < rawSize. t' ! i = t ! i" using t'(3) by (simp add: pos'_def)
  have same: "pos' = pos \<longleftrightarrow> y' = y \<and> x' div 8 = x div 8"
  proof
    assume "pos' = pos"
    then have "(W - y' - 1) * getRowStride W + x' div 8 = (W - y - 1) * getRowStride W + x div 8"
      by (simp add: pos'_def pos_def)
    from mask_pos_inj[OF x' x this] show "y' = y \<and> x' div 8 = x div 8"
      using flip_inj[OF y' y] by simp
  next
    assume "y' = y \<and> x' div 8 = x div 8"
    then show "pos' = pos" by (simp add: pos'_def pos_def)
  qed
  have "bit (t' ! pos) j = (bit (t ! pos) j \<or> (y' = y \<and> x' div 8 = x div 8 \<and> j = 7 - x' mod 8
                          \<and> \<not> gt0 (index data ((y' * W + x') * 4 + 3))))"
  proof (cases "pos' = pos")
    case True
    have k: "7 - x' mod 8 < 8" by simp
    show ?thesis
      using True same t'(4) bit_mask_byte[OF k j] by auto
  next
    case False
    then show ?thesis using same t'(3) by auto
  qed
  then show ?thesis using t'(1,2) low unfolding pos_def by blast
qed

lemma xorPixel_above:
  assumes len: "length t = n" and x': "x' < W" and y': "y' < W" and big: "W * W * 4 \<le> n"
  shows "\<exists>t'. xorPixel data W W y' x' t = Inr t' \<and> length t' = n
           \<and> (\<forall>i. W * W * 4 \<le> i \<longrightarrow> t' ! i = t ! i)"
proof -
  have fits: "((W - y' - 1) * W + x') * 4 + 4 \<le> W * W * 4"
    by (rule xor_fits[OF x' y' order_refl])
  from xorPixel_step[OF len, of W y' W x' data] fits big
  obtain t' where "xorPixel data W W y' x' t = Inr t'" "length t' = n"
    "\<forall>i. i < ((W - y' - 1) * W + x') * 4 \<or> ((W - y' - 1) * W + x') * 4 + 4 \<le> i \<longrightarrow> t' ! i = t ! i"
    by auto
  then show ?thesis using fits by auto
qed

lemma getDib_mask_bit:
  assumes width: "info_width info = W"
    and size: "info_size info = W * W * 4"
    and data: "length data = W * W * 4"
    and x: "x < W" and y: "y < W"
  shows "\<exists>dib. getDib data info = Inr dib
           \<and> bit (dib ! (W * W * 4 + (W - 1 - y) * getRowStride W + x div 8)) (7 - x mod 8)
               = (data ! ((y * W + x) * 4 + 3) = 0)"
proof -
  define n where "n = W * W * 4 + getRowStride W * W"
  define mpos where "mpos = W * W * 4 + (W - y - 1) * getRowStride W + x div 8"
  define k where "k = 7 - x mod 8"
  define Z where "Z t \<longleftrightarrow> length t = n \<and> \<not> bit (t ! mpos) k" for t :: buffer
  define Q where "Q t \<longleftrightarrow> length t = n \<and> bit (t ! mpos) k = (data ! ((y * W + x) * 4 + 3) = 0)"
    for t :: buffer
  have big: "W * W * 4 \<le> n" by (simp add: n_def)
  have k8: "k < 8" by (simp add: k_def)
  have min: "mpos < n" using and_fits[OF x y, of "W * W * 4"] by (simp add: mpos_def n_def)
  have mabove: "W * W * 4 \<le> mpos" by (simp add: mpos_def)
  have pin: "(y * W + x) * 4 + 3 < length data"
    using cell_bound[OF x y] data by simp
  have xor_Z: "\<exists>t'. xorPixel data W W y' x' t = Inr t' \<and> Z t'" if "y' < W" "x' < W" "Z t" for y' x' t
    using xorPixel_above[of t n x' W y' data] that big mabove by (auto simp add: Z_def)
  have step: "\<exists>t'. andPixel data (W * W * 4) W W y' x' t = Inr t' \<and> length t' = n
       \<and> bit (t' ! mpos) k = (bit (t ! mpos) k \<or> ((y', x') = (y, x) \<and> data ! ((y * W + x) * 4 + 3) = 0))"
    if "y' < W" "x' < W" "length t = n" for y' x' t
  proof -
    from andPixel_bit[OF that(3,2,1) x y, of "W * W * 4" k data] k8
    obtain t' where t': "andPixel data (W * W * 4) W W y' x' t = Inr t'" "length t' = n"
      "bit (t' ! mpos) k = (bit (t ! mpos) k \<or> (y' = y \<and> x' div 8 = x div 8 \<and> k = 7 - x' mod 8
                          \<and> \<not> gt0 (index data ((y' * W + x') * 4 + 3))))"
      unfolding mpos_def n_def by blast
    have "(y' = y \<and> x' div 8 = x div 8 \<and> k = 7 - x' mod 8) \<longleftrightarrow> (y', x') = (y, x)"
    proof -
      have "x' mod 8 < 8" "x mod 8 < 8" by simp_all
      then have "k = 7 - x' mod 8 \<longleftrightarrow> x mod 8 = x' mod 8" unfolding k_def by linarith
      then show ?thesis using div_mod_8_inj[of x x'] by auto
    qed
    moreover have "gt0 (index data ((y * W + x) * 4 + 3)) = (data ! ((y * W + x) * 4 + 3) \<noteq> 0)"
      using pin by (rule gt0_in)
    ultimately have "bit (t' ! mpos) k
        = (bit (t ! mpos) k \<or> ((y', x') = (y, x) \<and> data ! ((y * W + x) * 4 + 3) = 0))"
      using t'(3) by auto
    then show ?thesis using t'(1,2) by blast
  qed
  have and_Z: "\<exists>t'. andPixel data (W * W * 4) W W y' x' t = Inr t' \<and> Z t'"
    if "y' < W" "x' < W" "(y', x') \<noteq> (y, x)" "Z t" for y' x' t
    using step[OF that(1,2), of t] that(3,4) by (auto simp add: Z_def)
  have and_est: "\<exists>t'. andPixel data (W * W * 4) W W y x t = Inr t' \<and> Q t'" if "Z t" for t
    using step[OF y x, of t] that by (auto simp add: Z_def Q_def)
  have and_Q: "\<exists>t'. andPixel data (W * W * 4) W W y' x' t = Inr t' \<and> Q t'"
    if "y' < W" "x' < W" "(y', x') \<noteq> (y, x)" "Q t" for y' x' t
    using step[OF that(1,2), of t] that(3,4) by (auto simp add: Q_def)
  have "Z (alloc n)" using min by (simp add: Z_def)
  from xorLoop_keeps[of Z "alloc n" W data W, OF this xor_Z]
  obtain mid where mid: "foldE (\<lambda>y. foldE (xorPixel data W W y) [0..<W]) [0..<W] (alloc n) = Inr mid" "Z mid"
    by blast
  from nested_establish[of y W x Z mid "andPixel data (W * W * 4) W W" Q, OF y x mid(2) and_Z and_est and_Q]
  obtain dib where dib: "foldE (\<lambda>y. foldE (andPixel data (W * W * 4) W W y) [0..<W]) [0..<W] mid = Inr dib" "Q dib"
    by blast
  have run: "getDib data info = Inr dib"
    unfolding getDib_unfold width size n_def[symmetric] using mid(1) dib(1) by simp
  have mpos': "W * W * 4 + (W - 1 - y) * getRowStride W + x div 8 = mpos" by (simp add: mpos_def)
  show ?thesis
    using run dib(2) unfolding mpos' k_def[symmetric] Q_def by blast
qed

lemma getDib_mask_sound:
  assumes width: "info_width info = W"
    and size: "info_size info = W * W * 4"
    and data: "length data = W * W * 4"
  shows "\<exists>dib. getDib data info = Inr dib
           \<and> (\<forall>i j. W * W * 4 \<le> i \<longrightarrow> i < length dib \<longrightarrow> bit (dib ! i) j \<longrightarrow>
                 (\<exists>x y. x < W \<and> y < W \<and> i = W * W * 4 + (W - 1 - y) * getRowStride W + x div 8
                        \<and> j = 7 - x mod 8 \<and> data ! ((y * W + x) * 4 + 3) = 0))"
proof -
  define n where "n = W * W * 4 + getRowStride W * W"
  define src where "src i j \<longleftrightarrow> (\<exists>x y. x < W \<and> y < W
        \<and> i = W * W * 4 + (W - 1 - y) * getRowStride W + x div 8
        \<and> j = 7 - x mod 8 \<and> data ! ((y * W + x) * 4 + 3) = 0)" for i j
  define R where "R t \<longleftrightarrow> length t = n \<and> (\<forall>i j. W * W * 4 \<le> i \<longrightarrow> i < n \<longrightarrow> bit (t ! i) j \<longrightarrow> src i j)"
    for t :: buffer
  have big: "W * W * 4 \<le> n" by (simp add: n_def)
  have xor_R: "\<exists>t'. xorPixel data W W y' x' t = Inr t' \<and> R t'" if "y' < W" "x' < W" "R t" for y' x' t
    using xorPixel_above[of t n x' W y' data] that big by (auto simp add: R_def)
  have and_R: "\<exists>t'. andPixel data (W * W * 4) W W y' x' t = Inr t' \<and> R t'"
    if y': "y' < W" and x': "x' < W" and R: "R t" for y' x' t
  proof -
    define pos where "pos = W * W * 4 + (W - y' - 1) * getRowStride W + x' div 8"
    have len: "length t = n" using R by (simp add: R_def)
    have fits: "pos < n" using and_fits[OF x' y', of "W * W * 4"] by (simp add: pos_def n_def)
    have pin: "(y' * W + x') * 4 + 3 < length data"
      using cell_bound[OF x' y'] data by simp
    from andPixel_step[OF len x', of "W * W * 4" W y' data] fits
    obtain t' where t': "andPixel data (W * W * 4) W W y' x' t = Inr t'" "length t' = n"
      "\<forall>i. i \<noteq> pos \<longrightarrow> t' ! i = t ! i"
      "t' ! pos = t ! pos OR push_bit (7 - x' mod 8) (if gt0 (index data ((y' * W + x') * 4 + 3)) then 0 else 1)"
      unfolding pos_def by blast
    have new: "src pos (7 - x' mod 8)" if "\<not> gt0 (index data ((y' * W + x') * 4 + 3))"
    proof -
      have "data ! ((y' * W + x') * 4 + 3) = 0" using that gt0_in[OF pin] by simp
      moreover have "pos = W * W * 4 + (W - 1 - y') * getRowStride W + x' div 8"
        by (simp add: pos_def)
      ultimately show ?thesis unfolding src_def using x' y' by blast
    qed
    have "src i j" if i: "W * W * 4 \<le> i" "i < n" and b: "bit (t' ! i) j" for i j
    proof (cases "i = pos")
      case False
      then show ?thesis using t'(3) R i b by (auto simp add: R_def)
    next
      case True
      have j: "j < 8" using bit_imp_le_length[OF b] by simp
      have k: "7 - x' mod 8 < 8" by simp
      from b have "bit (t ! pos) j \<or> (j = 7 - x' mod 8 \<and> \<not> gt0 (index data ((y' * W + x') * 4 + 3)))"
        unfolding True t'(4) bit_mask_byte[OF k j] .
      then show ?thesis
        using R i new True by (auto simp add: R_def)
    qed
    then have "R t'" using t'(2) by (simp add: R_def)
    then show ?thesis using t'(1) by blast
  qed
  have "R (alloc n)" by (simp add: R_def)
  from xorLoop_keeps[of R "alloc n" W data W, OF this xor_R]
  obtain mid where mid: "foldE (\<lambda>y. foldE (xorPixel data W W y) [0..<W]) [0..<W] (alloc n) = Inr mid" "R mid"
    by blast
  from andLoop_keeps[of R mid W data "W * W * 4" W, OF mid(2) and_R]
  obtain dib where dib: "foldE (\<lambda>y. foldE (andPixel data (W * W * 4) W W y) [0..<W]) [0..<W] mid = Inr dib" "R dib"
    by blast
  have run: "getDib data info = Inr dib"
    unfolding getDib_unfold width size n_def[symmetric] using mid(1) dib(1) by simp
  show ?thesis
    using run dib(2) unfolding R_def src_def by blast
qed

lemma getRowStride_16_33: "getRowStride 16 = 4" "getRowStride 33 = 8"
  by (simp_all add: getRowStride_def)

text \<open>
  Claim C2. For a square RGBA8 buffer of width and height \<open>W\<close>, the pixel encoder returns
  a buffer whose transparency mask starts at offset \<open>W * W * 4\<close> and has rows of
  \<open>getRowStride W\<close> bytes, which is \<open>W div 8\<close> when 32 divides \<open>W\<close> and
  \<open>4 * (W div 32 + 1)\<close> otherwise (4 for width 16, 8 for width 33). The bit of the pixel in
  column \<open>x\<close> of row \<open>y\<close> lies in mask row \<open>W - 1 - y\<close>, in byte \<open>x div 8\<close> of that row,
  at bit position \<open>7 - x mod 8\<close>; it is 1 when the alpha byte of the pixel is 0 and 0 when
  the alpha byte is greater than 0. No other bit of the mask is set: the mask starts as
  zero bytes and every set bit is the bit of a pixel whose alpha byte is 0.
\<close>

theorem getDib_transparency_mask:
  assumes width: "info_width info = W"
    and size: "info_size info = W * W * 4"
    and data: "length data = W * W * 4"
    and x: "x < W" and y: "y < W"
  shows "\<exists>dib. getDib data info = Inr dib
           \<and> bit (dib ! (W * W * 4 + (W - 1 - y) * getRowStride W + x div 8)) (7 - x mod 8)
               = (data ! ((y * W + x) * 4 + 3) = 0)
           \<and> (\<forall>i j. W * W * 4 \<le> i \<longrightarrow> i < length dib \<longrightarrow> bit (dib ! i) j \<longrightarrow>
                 (\<exists>x y. x < W \<and> y < W \<and> i = W * W * 4 + (W - 1 - y) * getRowStride W + x div 8
                        \<and> j = 7 - x mod 8 \<and> data ! ((y * W + x) * 4 + 3) = 0))
           \<and> getRowStride W = (if W mod 32 = 0 then W div 8 else 4 * (W div 32 + 1))
           \<and> getRowStride 16 = 4 \<and> getRowStride 33 = 8"
proof -
  from getDib_mask_bit[OF assms] obtain dib where
    1: "getDib data info = Inr dib"
       "bit (dib ! (W * W * 4 + (W - 1 - y) * getRowStride W + x div 8)) (7 - x mod 8)
               = (data ! ((y * W + x) * 4 + 3) = 0)"
    by blast
  from getDib_mask_sound[OF width size data] 1(1) have
    2: "\<forall>i j. W * W * 4 \<le> i \<longrightarrow> i < length dib \<longrightarrow> bit (dib ! i) j \<longrightarrow>
                 (\<exists>x y. x < W \<and> y < W \<and> i = W * W * 4 + (W - 1 - y) * getRowStride W + x div 8
                        \<and> j = 7 - x mod 8 \<and> data ! ((y * W + x) * 4 + 3) = 0)"
    by auto
  have 3: "getRowStride W = (if W mod 32 = 0 then W div 8 else 4 * (W div 32 + 1))"
    by (simp add: getRowStride_def)
  show ?thesis
    using 1 2 3 getRowStride_16_33 by blast
qed

theorem getDib_transparency_mask_witness:
  "info_width \<lparr>info_format = ''raw'', info_width = 1, info_height = 1, info_size = 4\<rparr> = 1
   \<and> length [10, 20, 30, 0 :: byte] = 1 * 1 * 4 \<and> (0::nat) < 1
   \<and> (\<exists>dib. getDib [10, 20, 30, 0]
               \<lparr>info_format = ''raw'', info_width = 1, info_height = 1, info_size = 4\<rparr> = Inr dib
          \<and> bit (dib ! 4) 7 \<and> getRowStride 1 = 4)"
  using getDib_transparency_mask[of "\<lparr>info_format = ''raw'', info_width = 1, info_height = 1, info_size = 4\<rparr>"
      1 "[10, 20, 30, 0]" 0 0]
  by auto


section \<open>The directory entry and the bitmap info header\<close>

lemma byteOf_consts:
  "byteOf 0 k = 0" "byteOf 1 0 = 1" "byteOf 1 1 = 0" "byteOf 32 0 = 32" "byteOf 32 1 = 0"
  "byteOf 40 0 = 40" "byteOf 40 1 = 0" "byteOf 40 2 = 0" "byteOf 40 3 = 0"
  "byteOf 1 (Suc 0) = 0" "byteOf 32 (Suc 0) = 0" "byteOf 40 (Suc 0) = 0"
  by (simp_all add: byteOf_def)

lemma byteOf_nat0: "byteOf (int v) 0 = of_nat v"
  by (simp add: byteOf_def)

lemma sint_byteOf_top:
  assumes "v < 2147483648"
  shows "sint (byteOf (int v) 3) = int (unat (byteOf (int v) 3))"
proof -
  define q where "q = v div 16777216"
  have q: "q < 128" using assms by (simp add: q_def)
  have "int v div 2 ^ (8 * 3) = int q" by (simp add: q_def zdiv_int)
  then have b: "byteOf (int v) 3 = word_of_int (int q)" by (simp add: byteOf_def)
  have "sint (word_of_int (int q) :: byte) = signed_take_bit 7 (int q)"
    by (simp add: signed_of_nat)
  also have "\<dots> = int q"
    using q by (intro signed_take_bit_int_eq_self) simp_all
  finally have "sint (word_of_int (int q) :: byte) = int q" .
  moreover have "unat (byteOf (int v) 3) = q"
    using q by (simp add: unat_byteOf q_def)
  ultimately show ?thesis using b by simp
qed

lemma getDir_ok:
  assumes "info_size info + 40 < 4294967296" "off < 4294967296"
  shows "getDir info off = Inr ((alloc 16)
      [0 := byteOf (int (if info_width info \<ge> 256 then 0 else info_width info)) 0,
       1 := byteOf (int (if info_width info \<ge> 256 then 0 else info_width info)) 0,
       2 := byteOf 0 0, 3 := byteOf 0 0,
       4 := byteOf 1 0, 4 + 1 := byteOf 1 1, 6 := byteOf 32 0, 6 + 1 := byteOf 32 1,
       8 := byteOf (int (info_size info + 40)) 0, 8 + 1 := byteOf (int (info_size info + 40)) 1,
       8 + 2 := byteOf (int (info_size info + 40)) 2, 8 + 3 := byteOf (int (info_size info + 40)) 3,
       12 := byteOf (int off) 0, 12 + 1 := byteOf (int off) 1,
       12 + 2 := byteOf (int off) 2, 12 + 3 := byteOf (int off) 3])"
proof -
  have w: "int (if info_width info \<ge> 256 then 0 else info_width info) \<le> 255" by simp
  show ?thesis
    unfolding getDir_def Let_def
    using assms w
    by (simp add: writeUInt8_ok writeUInt16LE_ok writeUInt32LE_ok del: of_nat_add)
qed

lemma getDir_fields:
  assumes "info_size info + 40 < 4294967296" "off < 4294967296"
  shows "\<exists>dir. getDir info off = Inr dir \<and> length dir = 16
           \<and> unat (dir ! 0) = (if info_width info < 256 then info_width info else 0)
           \<and> dir ! 1 = dir ! 0 \<and> dir ! 2 = 0 \<and> dir ! 3 = 0
           \<and> readUInt16LE dir 4 = 1 \<and> readUInt16LE dir 6 = 32
           \<and> readUInt32LE dir 8 = info_size info + 40
           \<and> readUInt32LE dir 12 = off"
proof -
  define dir where "dir = (alloc 16)
      [0 := byteOf (int (if info_width info \<ge> 256 then 0 else info_width info)) 0,
       1 := byteOf (int (if info_width info \<ge> 256 then 0 else info_width info)) 0,
       2 := byteOf 0 0, 3 := byteOf 0 0,
       4 := byteOf 1 0, 4 + 1 := byteOf 1 1, 6 := byteOf 32 0, 6 + 1 := byteOf 32 1,
       8 := byteOf (int (info_size info + 40)) 0, 8 + 1 := byteOf (int (info_size info + 40)) 1,
       8 + 2 := byteOf (int (info_size info + 40)) 2, 8 + 3 := byteOf (int (info_size info + 40)) 3,
       12 := byteOf (int off) 0, 12 + 1 := byteOf (int off) 1,
       12 + 2 := byteOf (int off) 2, 12 + 3 := byteOf (int off) 3]"
  have run: "getDir info off = Inr dir" unfolding dir_def by (rule getDir_ok[OF assms])
  have len: "length dir = 16" by (simp add: dir_def)
  have b0: "dir ! 0 = byteOf (int (if info_width info \<ge> 256 then 0 else info_width info)) 0"
    and b1: "dir ! 1 = byteOf (int (if info_width info \<ge> 256 then 0 else info_width info)) 0"
    and b2: "dir ! 2 = 0" and b3: "dir ! 3 = 0"
    and b4: "dir ! 4 = 1" and b5: "dir ! (4 + 1) = 0" and b6: "dir ! 6 = 32" and b7: "dir ! (6 + 1) = 0"
    by (simp_all add: dir_def byteOf_consts)
  have s: "dir ! 8 = byteOf (int (info_size info + 40)) 0" "dir ! (8 + 1) = byteOf (int (info_size info + 40)) 1"
    "dir ! (8 + 2) = byteOf (int (info_size info + 40)) 2" "dir ! (8 + 3) = byteOf (int (info_size info + 40)) 3"
    by (simp_all add: dir_def del: of_nat_add)
  have f: "dir ! 12 = byteOf (int off) 0" "dir ! (12 + 1) = byteOf (int off) 1"
    "dir ! (12 + 2) = byteOf (int off) 2" "dir ! (12 + 3) = byteOf (int off) 3"
    by (simp_all add: dir_def)
  have w: "unat (dir ! 0) = (if info_width info < 256 then info_width info else 0)"
    unfolding b0 by (simp add: unat_byteOf)
  have p: "readUInt16LE dir 4 = 1" "readUInt16LE dir 6 = 32"
    unfolding readUInt16LE_def b4 b5 b6 b7 by simp_all
  have sz: "readUInt32LE dir 8 = info_size info + 40"
    unfolding readUInt32LE_def s by (rule le32_roundtrip[OF assms(1)])
  have fo: "readUInt32LE dir 12 = off"
    unfolding readUInt32LE_def f by (rule le32_roundtrip[OF assms(2)])
  show ?thesis
    using run len w b0 b1 b2 b3 p sz fo by auto
qed

lemma getBmpInfoHeader_ok:
  assumes "info_width info * 2 < 2147483648"
  shows "getBmpInfoHeader info = Inr ((alloc 40)
      [0 := byteOf 40 0, 0 + 1 := byteOf 40 1, 0 + 2 := byteOf 40 2, 0 + 3 := byteOf 40 3,
       4 := byteOf (int (info_width info)) 0, 4 + 1 := byteOf (int (info_width info)) 1,
       4 + 2 := byteOf (int (info_width info)) 2, 4 + 3 := byteOf (int (info_width info)) 3,
       8 := byteOf (int (info_width info * 2)) 0, 8 + 1 := byteOf (int (info_width info * 2)) 1,
       8 + 2 := byteOf (int (info_width info * 2)) 2, 8 + 3 := byteOf (int (info_width info * 2)) 3,
       12 := byteOf 1 0, 12 + 1 := byteOf 1 1, 14 := byteOf 32 0, 14 + 1 := byteOf 32 1,
       16 := byteOf 0 0, 16 + 1 := byteOf 0 1, 16 + 2 := byteOf 0 2, 16 + 3 := byteOf 0 3,
       20 := byteOf 0 0, 20 + 1 := byteOf 0 1, 20 + 2 := byteOf 0 2, 20 + 3 := byteOf 0 3,
       24 := byteOf 0 0, 24 + 1 := byteOf 0 1, 24 + 2 := byteOf 0 2, 24 + 3 := byteOf 0 3,
       28 := byteOf 0 0, 28 + 1 := byteOf 0 1, 28 + 2 := byteOf 0 2, 28 + 3 := byteOf 0 3,
       32 := byteOf 0 0, 32 + 1 := byteOf 0 1, 32 + 2 := byteOf 0 2, 32 + 3 := byteOf 0 3,
       36 := byteOf 0 0, 36 + 1 := byteOf 0 1, 36 + 2 := byteOf 0 2, 36 + 3 := byteOf 0 3])"
  unfolding getBmpInfoHeader_def Let_def
  using assms
  by (simp add: writeInt32LE_ok writeUInt16LE_ok writeUInt32LE_ok del: of_nat_mult)

lemma readInt32LE_bytes:
  assumes "v < 2147483648"
    and "buf ! pos = byteOf (int v) 0" "buf ! (pos + 1) = byteOf (int v) 1"
    and "buf ! (pos + 2) = byteOf (int v) 2" "buf ! (pos + 3) = byteOf (int v) 3"
  shows "readInt32LE buf pos = int v"
proof -
  have "v < 4294967296" using assms(1) by simp
  from le32_roundtrip[OF this] show ?thesis
    unfolding readInt32LE_def assms(2-5) sint_byteOf_top[OF assms(1)] by linarith
qed

lemma readUInt32LE_bytes:
  assumes "v < 4294967296"
    and "buf ! pos = byteOf (int v) 0" "buf ! (pos + 1) = byteOf (int v) 1"
    and "buf ! (pos + 2) = byteOf (int v) 2" "buf ! (pos + 3) = byteOf (int v) 3"
  shows "readUInt32LE buf pos = v"
  unfolding readUInt32LE_def assms(2-5) by (rule le32_roundtrip[OF assms(1)])

lemma readUInt16LE_bytes:
  assumes "v < 65536"
    and "buf ! pos = byteOf (int v) 0" "buf ! (pos + 1) = byteOf (int v) 1"
  shows "readUInt16LE buf pos = v"
  unfolding readUInt16LE_def assms(2-3) by (rule le16_roundtrip[OF assms(1)])

lemma getBmpInfoHeader_fields:
  assumes "info_width info * 2 < 2147483648"
  shows "\<exists>hdr. getBmpInfoHeader info = Inr hdr \<and> length hdr = 40
           \<and> readUInt32LE hdr 0 = 40
           \<and> readInt32LE hdr 4 = int (info_width info)
           \<and> readInt32LE hdr 8 = int (info_width info * 2)
           \<and> readUInt16LE hdr 12 = 1 \<and> readUInt16LE hdr 14 = 32
           \<and> readUInt32LE hdr 16 = 0 \<and> readUInt32LE hdr 20 = 0
           \<and> readInt32LE hdr 24 = 0 \<and> readInt32LE hdr 28 = 0
           \<and> readUInt32LE hdr 32 = 0 \<and> readUInt32LE hdr 36 = 0"
proof -
  define W where "W = info_width info"
  define H where "H = info_width info * 2"
  define hdr where "hdr = (alloc 40)
      [0 := byteOf 40 0, 0 + 1 := byteOf 40 1, 0 + 2 := byteOf 40 2, 0 + 3 := byteOf 40 3,
       4 := byteOf (int W) 0, 4 + 1 := byteOf (int W) 1,
       4 + 2 := byteOf (int W) 2, 4 + 3 := byteOf (int W) 3,
       8 := byteOf (int H) 0, 8 + 1 := byteOf (int H) 1,
       8 + 2 := byteOf (int H) 2, 8 + 3 := byteOf (int H) 3,
       12 := byteOf 1 0, 12 + 1 := byteOf 1 1, 14 := byteOf 32 0, 14 + 1 := byteOf 32 1,
       16 := byteOf 0 0, 16 + 1 := byteOf 0 1, 16 + 2 := byteOf 0 2, 16 + 3 := byteOf 0 3,
       20 := byteOf 0 0, 20 + 1 := byteOf 0 1, 20 + 2 := byteOf 0 2, 20 + 3 := byteOf 0 3,
       24 := byteOf 0 0, 24 + 1 := byteOf 0 1, 24 + 2 := byteOf 0 2, 24 + 3 := byteOf 0 3,
       28 := byteOf 0 0, 28 + 1 := byteOf 0 1, 28 + 2 := byteOf 0 2, 28 + 3 := byteOf 0 3,
       32 := byteOf 0 0, 32 + 1 := byteOf 0 1, 32 + 2 := byteOf 0 2, 32 + 3 := byteOf 0 3,
       36 := byteOf 0 0, 36 + 1 := byteOf 0 1, 36 + 2 := byteOf 0 2, 36 + 3 := byteOf 0 3]"
  have run: "getBmpInfoHeader info = Inr hdr"
    unfolding hdr_def W_def H_def by (rule getBmpInfoHeader_ok[OF assms])
  have len: "length hdr = 40" by (simp add: hdr_def)
  have Wb: "W < 2147483648" and Hb: "H < 2147483648" using assms by (simp_all add: W_def H_def)
  have f0: "readUInt32LE hdr 0 = 40"
    by (simp add: readUInt32LE_def hdr_def byteOf_consts)
  have f4: "readInt32LE hdr 4 = int W"
    by (rule readInt32LE_bytes[OF Wb]) (simp_all add: hdr_def)
  have f8: "readInt32LE hdr 8 = int H"
    by (rule readInt32LE_bytes[OF Hb]) (simp_all add: hdr_def)
  have f12: "readUInt16LE hdr 12 = 1" "readUInt16LE hdr 14 = 32"
    by (simp_all add: readUInt16LE_def hdr_def byteOf_consts)
  have f16: "readUInt32LE hdr 16 = 0" "readUInt32LE hdr 20 = 0"
    "readUInt32LE hdr 32 = 0" "readUInt32LE hdr 36 = 0"
    by (simp_all add: readUInt32LE_def hdr_def byteOf_consts)
  have f24: "readInt32LE hdr 24 = 0" "readInt32LE hdr 28 = 0"
    by (simp_all add: readInt32LE_def hdr_def byteOf_consts)
  show ?thesis
    using run len f0 f4 f8 f12 f16 f24 unfolding W_def H_def by blast
qed

text \<open>
  Claim C4. For an image of width \<open>W\<close> with raw pixel byte length \<open>info_size\<close> and file
  offset \<open>off\<close>, both fitting an unsigned 32-bit field, the directory entry is 16 bytes:
  the width byte is \<open>W\<close> when \<open>W < 256\<close> and 0 otherwise, the height byte equals the width
  byte, colour count and reserved byte are 0, planes is 1 and bit count is 32 (16-bit,
  little-endian), the data size is the raw byte length plus 40 and the file offset is
  \<open>off\<close> (32-bit, little-endian). The data size leaves out the mask bytes of the payload:
  the payload that the pixel encoder returns for the image is longer than the declared
  size minus 40 by \<open>getRowStride W * W\<close>.
\<close>

theorem getDir_entry:
  assumes "info_size info + 40 < 2 ^ 32" and "off < 2 ^ 32"
  shows "\<exists>dir. getDir info off = Inr dir \<and> length dir = 16
           \<and> unat (dir ! 0) = (if info_width info < 256 then info_width info else 0)
           \<and> dir ! 1 = dir ! 0 \<and> dir ! 2 = 0 \<and> dir ! 3 = 0
           \<and> readUInt16LE dir 4 = 1 \<and> readUInt16LE dir 6 = 32
           \<and> readUInt32LE dir 8 = info_size info + 40
           \<and> readUInt32LE dir 12 = off
           \<and> (\<forall>data dib. getDib data info = Inr dib \<longrightarrow>
                 readUInt32LE dir 8 + getRowStride (info_width info) * info_width info
                   = 40 + length dib)"
proof -
  have a: "info_size info + 40 < 4294967296" "off < 4294967296" using assms by simp_all
  from getDir_fields[OF a] obtain dir where dir: "getDir info off = Inr dir" "length dir = 16"
    "unat (dir ! 0) = (if info_width info < 256 then info_width info else 0)"
    "dir ! 1 = dir ! 0" "dir ! 2 = 0" "dir ! 3 = 0"
    "readUInt16LE dir 4 = 1" "readUInt16LE dir 6 = 32"
    "readUInt32LE dir 8 = info_size info + 40" "readUInt32LE dir 12 = off"
    by blast
  have "\<forall>data dib. getDib data info = Inr dib \<longrightarrow>
          readUInt32LE dir 8 + getRowStride (info_width info) * info_width info = 40 + length dib"
    using dir(9) getDib_length by auto
  then show ?thesis using dir by blast
qed

theorem getDir_entry_witness:
  "(9216::nat) + 40 < 2 ^ 32 \<and> (70::nat) < 2 ^ 32
   \<and> (\<exists>dir. getDir \<lparr>info_format = ''raw'', info_width = 48, info_height = 48, info_size = 9216\<rparr> 70
               = Inr dir
          \<and> length dir = 16 \<and> unat (dir ! 0) = 48 \<and> dir ! 1 = dir ! 0
          \<and> readUInt32LE dir 8 = 9256 \<and> readUInt32LE dir 12 = 70)
   \<and> (\<exists>dir. getDir \<lparr>info_format = ''raw'', info_width = 256, info_height = 256, info_size = 262144\<rparr> 70
               = Inr dir
          \<and> unat (dir ! 0) = 0 \<and> readUInt32LE dir 8 = 262184)"
  using getDir_entry[of "\<lparr>info_format = ''raw'', info_width = 48, info_height = 48, info_size = 9216\<rparr>" 70]
    getDir_entry[of "\<lparr>info_format = ''raw'', info_width = 256, info_height = 256, info_size = 262144\<rparr>" 70]
  by auto

text \<open>
  Claim C8. For an image of width \<open>W\<close> whose doubled width fits a signed 32-bit field, the
  bitmap info header is 40 bytes with, in little-endian order, header size 40, width \<open>W\<close>
  and height \<open>W * 2\<close> as signed 32-bit fields, 1 colour plane and 32 bits per pixel as 16-bit
  fields, and compression, image size, both resolutions, colours used and important
  colours all 0.
\<close>

theorem getBmpInfoHeader_record:
  assumes "info_width info * 2 < 2 ^ 31"
  shows "\<exists>hdr. getBmpInfoHeader info = Inr hdr \<and> length hdr = 40
           \<and> readUInt32LE hdr 0 = 40
           \<and> readInt32LE hdr 4 = int (info_width info)
           \<and> readInt32LE hdr 8 = int (info_width info * 2)
           \<and> readUInt16LE hdr 12 = 1 \<and> readUInt16LE hdr 14 = 32
           \<and> readUInt32LE hdr 16 = 0 \<and> readUInt32LE hdr 20 = 0
           \<and> readInt32LE hdr 24 = 0 \<and> readInt32LE hdr 28 = 0
           \<and> readUInt32LE hdr 32 = 0 \<and> readUInt32LE hdr 36 = 0"
proof -
  have "info_width info * 2 < 2147483648" using assms by simp
  then show ?thesis by (rule getBmpInfoHeader_fields)
qed

theorem getBmpInfoHeader_record_witness:
  "(48::nat) * 2 < 2 ^ 31
   \<and> (\<exists>hdr. getBmpInfoHeader \<lparr>info_format = ''raw'', info_width = 48, info_height = 48, info_size = 9216\<rparr>
               = Inr hdr
          \<and> length hdr = 40 \<and> readUInt32LE hdr 0 = 40 \<and> readInt32LE hdr 4 = 48
          \<and> readInt32LE hdr 8 = 96 \<and> readUInt16LE hdr 12 = 1 \<and> readUInt16LE hdr 14 = 32)"
  using getBmpInfoHeader_record[of "\<lparr>info_format = ''raw'', info_width = 48, info_height = 48, info_size = 9216\<rparr>"]
  by auto

section \<open>The assembled container\<close>

lemma writeUInt8_Inr:
  "writeUInt8 buf v pos = Inr buf' \<Longrightarrow> length buf' = length buf \<and> 0 \<le> v \<and> v \<le> 255"
  by (auto simp add: writeUInt8_def split: if_splits)

lemma writeUInt16LE_Inr:
  "writeUInt16LE buf v pos = Inr buf' \<Longrightarrow> length buf' = length buf \<and> 0 \<le> v \<and> v \<le> 65535"
  by (auto simp add: writeUInt16LE_def split: if_splits)

lemma writeUInt32LE_Inr:
  "writeUInt32LE buf v pos = Inr buf' \<Longrightarrow> length buf' = length buf \<and> 0 \<le> v \<and> v \<le> 4294967295"
  by (auto simp add: writeUInt32LE_def split: if_splits)

lemma writeInt32LE_Inr:
  "writeInt32LE buf v pos = Inr buf' \<Longrightarrow>
     length buf' = length buf \<and> - 2147483648 \<le> v \<and> v \<le> 2147483647"
  by (auto simp add: writeInt32LE_def split: if_splits)

lemma getDir_Inr:
  assumes "getDir info off = Inr dir"
  shows "length dir = 16 \<and> info_size info + 40 < 4294967296 \<and> off < 4294967296"
proof -
  from assms obtain b1 b2 b3 b4 b5 b6 b7 where
    w: "writeUInt8 (alloc 16) (int (if info_width info \<ge> 256 then 0 else info_width info)) 0 = Inr b1"
      "writeUInt8 b1 (int (if info_width info \<ge> 256 then 0 else info_width info)) 1 = Inr b2"
      "writeUInt8 b2 0 2 = Inr b3" "writeUInt8 b3 0 3 = Inr b4"
      "writeUInt16LE b4 1 4 = Inr b5" "writeUInt16LE b5 32 6 = Inr b6"
      "writeUInt32LE b6 (int (info_size info + 40)) 8 = Inr b7"
      "writeUInt32LE b7 (int off) 12 = Inr dir"
    unfolding getDir_def Let_def andThen_eq_Inr by blast
  have "length dir = 16"
    using w(1-4)[THEN writeUInt8_Inr] w(5,6)[THEN writeUInt16LE_Inr] w(7,8)[THEN writeUInt32LE_Inr]
    by simp
  moreover have "int (info_size info + 40) \<le> 4294967295" "int off \<le> 4294967295"
    using w(7,8)[THEN writeUInt32LE_Inr] by blast+
  ultimately show ?thesis by linarith
qed

lemma getBmpInfoHeader_Inr:
  assumes "getBmpInfoHeader info = Inr hdr"
  shows "length hdr = 40"
proof -
  from assms obtain b1 b2 b3 b4 b5 b6 b7 b8 b9 b10 where
    w: "writeUInt32LE (alloc 40) 40 0 = Inr b1"
      "writeInt32LE b1 (int (info_width info)) 4 = Inr b2"
      "writeInt32LE b2 (int (info_width info * 2)) 8 = Inr b3"
      "writeUInt16LE b3 1 12 = Inr b4" "writeUInt16LE b4 32 14 = Inr b5"
      "writeUInt32LE b5 0 16 = Inr b6" "writeUInt32LE b6 0 20 = Inr b7"
      "writeInt32LE b7 0 24 = Inr b8" "writeInt32LE b8 0 28 = Inr b9"
      "writeUInt32LE b9 0 32 = Inr b10" "writeUInt32LE b10 0 36 = Inr hdr"
    unfolding getBmpInfoHeader_def Let_def andThen_eq_Inr by blast
  show ?thesis
    using w(1,6,7,10,11)[THEN writeUInt32LE_Inr] w(2,3,8,9)[THEN writeInt32LE_Inr]
      w(4,5)[THEN writeUInt16LE_Inr]
    by simp
qed

lemma getHeader_ok:
  assumes "n < 65536"
  shows "getHeader n = Inr ((alloc 6)[0 := byteOf 0 0, 0 + 1 := byteOf 0 1, 2 := byteOf 1 0, 2 + 1 := byteOf 1 1,
                               4 := byteOf (int n) 0, 4 + 1 := byteOf (int n) 1])"
  unfolding getHeader_def using assms by (simp add: writeUInt16LE_ok)

lemma getHeader_Inr:
  assumes "getHeader n = Inr header"
  shows "length header = 6 \<and> n < 65536"
proof -
  from assms obtain b1 b2 where
    w: "writeUInt16LE (alloc 6) 0 0 = Inr b1" "writeUInt16LE b1 1 2 = Inr b2"
       "writeUInt16LE b2 (int n) 4 = Inr header"
    unfolding getHeader_def andThen_eq_Inr by blast
  show ?thesis
    using w[THEN writeUInt16LE_Inr] by simp
qed

lemma addImage_Inr:
  assumes "addImage S img st = Inr st'"
  shows "\<exists>data info dir bmp dib. toBuffer S (raw S img) = Inr (data, info)
           \<and> getDir info (offset st) = Inr dir \<and> getBmpInfoHeader info = Inr bmp
           \<and> getDib data info = Inr dib
           \<and> st' = \<lparr>headerAndIconDir = headerAndIconDir st @ [dir],
                     imageDataArr = imageDataArr st @ [bmp, dib],
                     len = len st + (16 + 40 + length dib),
                     offset = offset st + (40 + length dib)\<rparr>"
proof -
  from assms obtain data info dir bmp dib where
    1: "toBuffer S (raw S img) = Inr (data, info)" "getDir info (offset st) = Inr dir"
       "getBmpInfoHeader info = Inr bmp" "getDib data info = Inr dib"
       "st' = \<lparr>headerAndIconDir = headerAndIconDir st @ [dir],
               imageDataArr = imageDataArr st @ [bmp, dib],
               len = len st + (length dir + length bmp + length dib),
               offset = offset st + (length bmp + length dib)\<rparr>"
    unfolding addImage_def by (auto simp add: andThen_eq_Inr split: prod.splits)
  have "length dir = 16" "length bmp = 40"
    using getDir_Inr[OF 1(2)] getBmpInfoHeader_Inr[OF 1(3)] by simp_all
  then show ?thesis using 1 by auto
qed

lemma foldE_Cons_Inr:
  assumes "foldE body (i # is) s = Inr s'"
  obtains t where "body i s = Inr t" "foldE body is t = Inr s'"
  using assms by (auto split: sum.splits)

lemma addImages_layout:
  assumes "foldE (addImage S) images st = Inr st'"
  shows "\<exists>infos dirs bmps dibs.
      length infos = length images \<and> length dirs = length images
    \<and> length bmps = length images \<and> length dibs = length images
    \<and> (\<forall>i<length images. \<exists>data.
          toBuffer S (raw S (images ! i)) = Inr (data, infos ! i)
        \<and> getDir (infos ! i) (offset st + (\<Sum>d\<leftarrow>take i dibs. 40 + length d)) = Inr (dirs ! i)
        \<and> getBmpInfoHeader (infos ! i) = Inr (bmps ! i)
        \<and> getDib data (infos ! i) = Inr (dibs ! i))
    \<and> headerAndIconDir st' = headerAndIconDir st @ dirs
    \<and> imageDataArr st' = imageDataArr st @ concat (map2 (\<lambda>bmp dib. [bmp, dib]) bmps dibs)
    \<and> len st' = len st + (\<Sum>d\<leftarrow>dibs. 56 + length d)
    \<and> offset st' = offset st + (\<Sum>d\<leftarrow>dibs. 40 + length d)"
  using assms
proof (induction images arbitrary: st)
  case Nil
  then show ?case by simp
next
  case (Cons img imgs)
  from Cons.prems obtain st1 where
    first: "addImage S img st = Inr st1" and rest: "foldE (addImage S) imgs st1 = Inr st'"
    by (rule foldE_Cons_Inr)
  from addImage_Inr[OF first] obtain data info dir bmp dib where
    e: "toBuffer S (raw S img) = Inr (data, info)" "getDir info (offset st) = Inr dir"
       "getBmpInfoHeader info = Inr bmp" "getDib data info = Inr dib"
    and st1: "st1 = \<lparr>headerAndIconDir = headerAndIconDir st @ [dir],
                     imageDataArr = imageDataArr st @ [bmp, dib],
                     len = len st + (16 + 40 + length dib),
                     offset = offset st + (40 + length dib)\<rparr>"
    by blast
  from Cons.IH[OF rest] obtain infos dirs bmps dibs where
    l: "length infos = length imgs" "length dirs = length imgs"
       "length bmps = length imgs" "length dibs = length imgs"
    and each: "\<forall>i<length imgs. \<exists>data.
          toBuffer S (raw S (imgs ! i)) = Inr (data, infos ! i)
        \<and> getDir (infos ! i) (offset st1 + (\<Sum>d\<leftarrow>take i dibs. 40 + length d)) = Inr (dirs ! i)
        \<and> getBmpInfoHeader (infos ! i) = Inr (bmps ! i)
        \<and> getDib data (infos ! i) = Inr (dibs ! i)"
    and h: "headerAndIconDir st' = headerAndIconDir st1 @ dirs"
    and d: "imageDataArr st' = imageDataArr st1 @ concat (map2 (\<lambda>bmp dib. [bmp, dib]) bmps dibs)"
    and n: "len st' = len st1 + (\<Sum>d\<leftarrow>dibs. 56 + length d)"
    and off: "offset st' = offset st1 + (\<Sum>d\<leftarrow>dibs. 40 + length d)"
    by blast
  have each': "\<exists>data'.
          toBuffer S (raw S ((img # imgs) ! i)) = Inr (data', (info # infos) ! i)
        \<and> getDir ((info # infos) ! i) (offset st + (\<Sum>d\<leftarrow>take i (dib # dibs). 40 + length d))
            = Inr ((dir # dirs) ! i)
        \<and> getBmpInfoHeader ((info # infos) ! i) = Inr ((bmp # bmps) ! i)
        \<and> getDib data' ((info # infos) ! i) = Inr ((dib # dibs) ! i)"
    if "i < length (img # imgs)" for i
  proof (cases i)
    case 0
    then show ?thesis using e by auto
  next
    case (Suc k)
    then have k: "k < length imgs" using that by simp
    have "offset st1 + (\<Sum>d\<leftarrow>take k dibs. 40 + length d)
            = offset st + (\<Sum>d\<leftarrow>take (Suc k) (dib # dibs). 40 + length d)"
      by (simp add: st1)
    then show ?thesis using each[rule_format, OF k] Suc by (auto simp add: add.assoc)
  qed
  show ?case
    apply (rule exI[of _ "info # infos"], rule exI[of _ "dir # dirs"])
    apply (rule exI[of _ "bmp # bmps"], rule exI[of _ "dib # dibs"])
    using l each' h d n off by (simp add: st1)
qed

lemma Buffer_concat_exact: "length (concat bufs) = n \<Longrightarrow> Buffer_concat bufs n = concat bufs"
  by (simp add: Buffer_concat_def)

lemma length_Buffer_concat [simp]: "length (Buffer_concat bufs n) = n"
  by (simp add: Buffer_concat_def)

lemma concat_pairs:
  "concat (concat (map2 (\<lambda>bmp dib. [bmp, dib]) bs ds)) = concat (map2 (\<lambda>bmp dib. bmp @ dib) bs ds)"
proof (induction bs arbitrary: ds)
  case Nil
  then show ?case by simp
next
  case (Cons b bs)
  then show ?case by (cases ds) simp_all
qed

lemma length_concat_uniform:
  "\<forall>d\<in>set ds. length d = m \<Longrightarrow> length (concat ds) = m * length ds"
  by (induction ds) simp_all

lemma length_concat_bodies:
  assumes "length bs = length ds" "\<forall>i<length bs. length (bs ! i) = 40"
  shows "length (concat (map2 (\<lambda>bmp dib. bmp @ dib) bs ds)) = (\<Sum>d\<leftarrow>ds. 40 + length d)"
  using assms
proof (induction bs ds rule: list_induct2)
  case Nil
  then show ?case by simp
next
  case (Cons b bs d ds)
  have "length b = 40" using Cons.prems by auto
  moreover have "\<forall>i<length bs. length (bs ! i) = 40" using Cons.prems by auto
  ultimately show ?case using Cons.IH by simp
qed

lemma sum_list_56: "(\<Sum>d\<leftarrow>ds. 56 + length d) = 16 * length ds + (\<Sum>d\<leftarrow>ds. 40 + length (d :: buffer))"
  by (induction ds) simp_all

lemma imagesToIco_layout:
  assumes "imagesToIco S images = Inr out"
  shows "\<exists>header infos dirs bmps dibs.
      getHeader (length images) = Inr header
    \<and> length infos = length images \<and> length dirs = length images
    \<and> length bmps = length images \<and> length dibs = length images
    \<and> (\<forall>i<length images. \<exists>data.
          toBuffer S (raw S (images ! i)) = Inr (data, infos ! i)
        \<and> getDir (infos ! i) (6 + 16 * length images + (\<Sum>d\<leftarrow>take i dibs. 40 + length d))
            = Inr (dirs ! i)
        \<and> getBmpInfoHeader (infos ! i) = Inr (bmps ! i)
        \<and> getDib data (infos ! i) = Inr (dibs ! i))
    \<and> out = header @ concat dirs @ concat (map2 (\<lambda>bmp dib. bmp @ dib) bmps dibs)
    \<and> length out = 6 + 16 * length images + (\<Sum>d\<leftarrow>dibs. 40 + length d)"
proof -
  define N where "N = length images"
  from assms obtain header st where
    hd: "getHeader N = Inr header"
    and loop: "foldE (addImage S) images
                \<lparr>headerAndIconDir = [header], imageDataArr = [],
                 len = length header, offset = length header + 16 * N\<rparr> = Inr st"
    and out: "out = Buffer_concat (headerAndIconDir st @ imageDataArr st) (len st)"
    unfolding imagesToIco_def andThen_eq_Inr N_def by auto
  have h6: "length header = 6" using getHeader_Inr[OF hd] by simp
  from addImages_layout[OF loop] obtain infos dirs bmps dibs where
    l: "length infos = N" "length dirs = N" "length bmps = N" "length dibs = N"
    and each: "\<forall>i<N. \<exists>data.
          toBuffer S (raw S (images ! i)) = Inr (data, infos ! i)
        \<and> getDir (infos ! i) (6 + 16 * N + (\<Sum>d\<leftarrow>take i dibs. 40 + length d)) = Inr (dirs ! i)
        \<and> getBmpInfoHeader (infos ! i) = Inr (bmps ! i)
        \<and> getDib data (infos ! i) = Inr (dibs ! i)"
    and h: "headerAndIconDir st = [header] @ dirs"
    and d: "imageDataArr st = concat (map2 (\<lambda>bmp dib. [bmp, dib]) bmps dibs)"
    and n: "len st = 6 + (\<Sum>d\<leftarrow>dibs. 56 + length d)"
    unfolding N_def[symmetric] by (auto simp add: h6)
  have d16: "\<forall>d\<in>set dirs. length d = 16"
  proof
    fix d assume "d \<in> set dirs"
    then obtain i where i: "i < N" "d = dirs ! i" using l(2) by (auto simp add: in_set_conv_nth)
    from each[rule_format, OF i(1)] show "length d = 16"
      using getDir_Inr i(2) by blast
  qed
  have b40: "\<forall>i<length bmps. length (bmps ! i) = 40"
    using each getBmpInfoHeader_Inr l(3) by blast
  have cat: "concat (headerAndIconDir st @ imageDataArr st)
               = header @ concat dirs @ concat (map2 (\<lambda>bmp dib. bmp @ dib) bmps dibs)"
    by (simp add: h d concat_pairs)
  have len: "length (header @ concat dirs @ concat (map2 (\<lambda>bmp dib. bmp @ dib) bmps dibs))
               = 6 + 16 * N + (\<Sum>d\<leftarrow>dibs. 40 + length d)"
    using length_concat_uniform[OF d16] length_concat_bodies[OF _ b40] l h6 by simp
  have lenst: "len st = 6 + 16 * N + (\<Sum>d\<leftarrow>dibs. 40 + length d)"
    using n l(4) by (simp add: sum_list_56)
  have exact: "length (concat (headerAndIconDir st @ imageDataArr st)) = len st"
    by (simp only: cat len lenst)
  have out': "out = header @ concat dirs @ concat (map2 (\<lambda>bmp dib. bmp @ dib) bmps dibs)"
    unfolding out Buffer_concat_exact[OF exact] cat ..
  show ?thesis
    using hd l each out' len unfolding out' N_def[symmetric] by blast
qed

lemma nth_concat_uniform:
  assumes "\<forall>d\<in>set ds. length d = m" "i < length ds" "j < m"
  shows "concat ds ! (m * i + j) = ds ! i ! j"
  using assms
proof (induction ds arbitrary: i)
  case Nil
  then show ?case by simp
next
  case (Cons d ds)
  have m: "length d = m" using Cons.prems(1) by simp
  show ?case
  proof (cases i)
    case 0
    then show ?thesis using m Cons.prems(3) by (simp add: nth_append)
  next
    case (Suc k)
    have "concat ds ! (m * k + j) = ds ! k ! j"
      using Cons.IH[of k] Cons.prems Suc by simp
    moreover have "m * i + j - m = m * k + j" "\<not> m * i + j < m"
      using Suc by simp_all
    ultimately show ?thesis using m Suc by (simp add: nth_append)
  qed
qed

lemma container_dir_byte:
  assumes "length header = 6" "\<forall>d\<in>set dirs. length d = 16" "i < length dirs" "j < 16"
  shows "(header @ concat dirs @ rest) ! (6 + 16 * i + j) = dirs ! i ! j"
proof -
  have "16 * i + j < 16 * length dirs"
  proof -
    have "16 * i + j < 16 * Suc i" using assms(4) by simp
    also have "\<dots> \<le> 16 * length dirs" using assms(3) by (intro mult_le_mono2) simp
    finally show ?thesis .
  qed
  then have "16 * i + j < length (concat dirs)"
    using length_concat_uniform[OF assms(2)] by simp
  then have "(header @ concat dirs @ rest) ! (6 + 16 * i + j) = concat dirs ! (16 * i + j)"
    using assms(1) by (simp add: nth_append)
  then show ?thesis using nth_concat_uniform[OF assms(2,3,4)] by simp
qed

lemma container_dir_offset:
  assumes "length header = 6" "\<forall>d\<in>set dirs. length d = 16" "i < length dirs"
  shows "readUInt32LE (header @ concat dirs @ rest) (6 + 16 * i + 12) = readUInt32LE (dirs ! i) 12"
proof -
  have "(header @ concat dirs @ rest) ! (6 + 16 * i + 12) = dirs ! i ! 12"
    by (rule container_dir_byte[OF assms]) simp
  moreover have "(header @ concat dirs @ rest) ! (6 + 16 * i + 12 + 1) = dirs ! i ! (12 + 1)"
    using container_dir_byte[OF assms, of 13 rest] by simp
  moreover have "(header @ concat dirs @ rest) ! (6 + 16 * i + 12 + 2) = dirs ! i ! (12 + 2)"
    using container_dir_byte[OF assms, of 14 rest] by simp
  moreover have "(header @ concat dirs @ rest) ! (6 + 16 * i + 12 + 3) = dirs ! i ! (12 + 3)"
    using container_dir_byte[OF assms, of 15 rest] by simp
  ultimately show ?thesis by (simp only: readUInt32LE_def)
qed

lemma getDir_offset_field:
  assumes "getDir info off = Inr dir"
  shows "readUInt32LE dir 12 = off"
proof -
  from getDir_Inr[OF assms] have b: "info_size info + 40 < 4294967296" "off < 4294967296" by simp_all
  from getDir_fields[OF b] assms show ?thesis by auto
qed

lemma bodies_split:
  assumes "length bs = length ds" "i < length ds" "\<forall>k<length bs. length (bs ! k) = 40"
  shows "concat (map2 (\<lambda>bmp dib. bmp @ dib) bs ds)
           = concat (map2 (\<lambda>bmp dib. bmp @ dib) (take i bs) (take i ds))
               @ (bs ! i @ ds ! i) @ concat (map2 (\<lambda>bmp dib. bmp @ dib) (drop (Suc i) bs) (drop (Suc i) ds))"
    and "length (concat (map2 (\<lambda>bmp dib. bmp @ dib) (take i bs) (take i ds)))
           = (\<Sum>d\<leftarrow>take i ds. 40 + length d)"
proof -
  let ?z = "map2 (\<lambda>bmp dib. bmp @ dib) bs ds"
  have iz: "i < length ?z" using assms(1,2) by simp
  have "?z = take i ?z @ ?z ! i # drop (Suc i) ?z"
    using iz by (rule id_take_nth_drop)
  moreover have "take i ?z = map2 (\<lambda>bmp dib. bmp @ dib) (take i bs) (take i ds)"
    by (simp add: take_map take_zip)
  moreover have "drop (Suc i) ?z = map2 (\<lambda>bmp dib. bmp @ dib) (drop (Suc i) bs) (drop (Suc i) ds)"
    by (simp add: drop_map drop_zip)
  moreover have "?z ! i = bs ! i @ ds ! i" using assms(1,2) by simp
  ultimately have "?z = map2 (\<lambda>bmp dib. bmp @ dib) (take i bs) (take i ds)
      @ (bs ! i @ ds ! i) # map2 (\<lambda>bmp dib. bmp @ dib) (drop (Suc i) bs) (drop (Suc i) ds)"
    by simp
  then have "concat ?z = concat (map2 (\<lambda>bmp dib. bmp @ dib) (take i bs) (take i ds)
      @ (bs ! i @ ds ! i) # map2 (\<lambda>bmp dib. bmp @ dib) (drop (Suc i) bs) (drop (Suc i) ds))"
    by simp
  then show "concat ?z = concat (map2 (\<lambda>bmp dib. bmp @ dib) (take i bs) (take i ds))
               @ (bs ! i @ ds ! i) @ concat (map2 (\<lambda>bmp dib. bmp @ dib) (drop (Suc i) bs) (drop (Suc i) ds))"
    by simp
  have "length (take i bs) = length (take i ds)" using assms(1) by simp
  moreover have "\<forall>k<length (take i bs). length (take i bs ! k) = 40" using assms(3) by simp
  ultimately show "length (concat (map2 (\<lambda>bmp dib. bmp @ dib) (take i bs) (take i ds)))
           = (\<Sum>d\<leftarrow>take i ds. 40 + length d)"
    by (rule length_concat_bodies)
qed

lemma getDib_total:
  assumes "info_size info = info_width info * info_width info * 4"
  shows "\<exists>dib. getDib data info = Inr dib"
proof -
  define W where "W = info_width info"
  define n where "n = W * W * 4 + getRowStride W * W"
  have big: "W * W * 4 \<le> n" by (simp add: n_def)
  have xor_L: "\<exists>t'. xorPixel data W W y x t = Inr t' \<and> length t' = n"
    if "y < W" "x < W" "length t = n" for y x t
    using xorPixel_above[OF that(3,2,1) big, of data] by blast
  have and_L: "\<exists>t'. andPixel data (W * W * 4) W W y x t = Inr t' \<and> length t' = n"
    if "y < W" "x < W" "length t = n" for y x t
    using andPixel_step[OF that(3,2), of "W * W * 4" W y data] and_fits[OF that(2,1), of "W * W * 4"]
    by (auto simp add: n_def)
  have "length (alloc n) = n" by simp
  from xorLoop_keeps[of "\<lambda>t. length t = n" "alloc n" W data W, OF this xor_L]
  obtain mid where mid: "foldE (\<lambda>y. foldE (xorPixel data W W y) [0..<W]) [0..<W] (alloc n) = Inr mid"
    "length mid = n"
    by blast
  from andLoop_keeps[of "\<lambda>t. length t = n" mid W data "W * W * 4" W, OF mid(2) and_L]
  obtain dib where "foldE (\<lambda>y. foldE (andPixel data (W * W * 4) W W y) [0..<W]) [0..<W] mid = Inr dib"
    by blast
  then have "getDib data info = Inr dib"
    unfolding getDib_unfold W_def[symmetric] assms n_def[symmetric] using mid(1) by simp
  then show ?thesis by blast
qed

lemma addImage_total:
  assumes "toBuffer S (raw S img) = Inr (data, info)"
    and "info_size info = info_width info * info_width info * 4"
    and "info_width info * 2 < 2147483648"
    and "info_size info + 40 < 4294967296" "offset st < 4294967296"
  shows "\<exists>st'. addImage S img st = Inr st'
           \<and> offset st' = offset st + (40 + (info_size info
                + getRowStride (info_width info) * info_width info))"
proof -
  from getDir_fields[OF assms(4,5)] obtain dir where
    dir: "getDir info (offset st) = Inr dir" "length dir = 16" by blast
  from getBmpInfoHeader_fields[OF assms(3)] obtain bmp where
    bmp: "getBmpInfoHeader info = Inr bmp" "length bmp = 40" by blast
  from getDib_total[OF assms(2)] obtain dib where dib: "getDib data info = Inr dib" by blast
  note dl = getDib_length[OF dib]
  show ?thesis
    unfolding addImage_def using assms(1) dir bmp dib dl by simp
qed

lemma addImages_total:
  assumes "map (\<lambda>img. toBuffer S (raw S img)) images = map Inr raws"
    and "\<forall>r\<in>set raws. info_size (snd r) = info_width (snd r) * info_width (snd r) * 4
                        \<and> info_width (snd r) * 2 < 2147483648"
    and "offset st + (\<Sum>r\<leftarrow>raws. 40 + (info_size (snd r)
           + getRowStride (info_width (snd r)) * info_width (snd r))) < 4294967296"
  shows "\<exists>st'. foldE (addImage S) images st = Inr st'"
  using assms
proof (induction images arbitrary: st raws)
  case Nil
  then show ?case by simp
next
  case (Cons img imgs)
  from Cons.prems(1) obtain r rs where raws: "raws = r # rs"
    and r: "toBuffer S (raw S img) = Inr r"
    and rs: "map (\<lambda>img. toBuffer S (raw S img)) imgs = map Inr rs"
    by (cases raws) auto
  obtain data info where di: "r = (data, info)" by (cases r)
  have v: "info_size info = info_width info * info_width info * 4" "info_width info * 2 < 2147483648"
    using Cons.prems(2) raws di by simp_all
  have b: "info_size info + 40 < 4294967296" "offset st < 4294967296"
    using Cons.prems(3) raws di by simp_all
  from addImage_total[OF r[unfolded di] v b] obtain st1 where
    st1: "addImage S img st = Inr st1"
      "offset st1 = offset st + (40 + (info_size info + getRowStride (info_width info) * info_width info))"
    by blast
  have "\<exists>st'. foldE (addImage S) imgs st1 = Inr st'"
  proof (rule Cons.IH[OF rs])
    show "\<forall>r\<in>set rs. info_size (snd r) = info_width (snd r) * info_width (snd r) * 4
                        \<and> info_width (snd r) * 2 < 2147483648"
      using Cons.prems(2) raws by simp
    show "offset st1 + (\<Sum>r\<leftarrow>rs. 40 + (info_size (snd r)
           + getRowStride (info_width (snd r)) * info_width (snd r))) < 4294967296"
      using Cons.prems(3) raws di st1(2) by simp
  qed
  then show ?case using st1(1) by simp
qed

lemma imagesToIco_total:
  assumes "map (\<lambda>img. toBuffer S (raw S img)) images = map Inr raws"
    and "\<forall>r\<in>set raws. info_size (snd r) = info_width (snd r) * info_width (snd r) * 4
                        \<and> info_width (snd r) * 2 < 2147483648"
    and "6 + 16 * length images + (\<Sum>r\<leftarrow>raws. 40 + (info_size (snd r)
           + getRowStride (info_width (snd r)) * info_width (snd r))) < 4294967296"
    and "length images < 65536"
  shows "\<exists>out. imagesToIco S images = Inr out"
proof -
  from getHeader_ok[OF assms(4)] obtain header where hd: "getHeader (length images) = Inr header"
    by blast
  have h6: "length header = 6" using getHeader_Inr[OF hd] by simp
  have "\<exists>st'. foldE (addImage S) images
                \<lparr>headerAndIconDir = [header], imageDataArr = [],
                 len = length header, offset = length header + 16 * length images\<rparr> = Inr st'"
    by (rule addImages_total[OF assms(1,2)]) (use assms(3) h6 in simp)
  then show ?thesis
    unfolding imagesToIco_def using hd by auto
qed

text \<open>
  Claim C5. Whenever the assembler returns a container \<open>out\<close> for an image list, the file
  offset stored in the directory entry of the first image (bytes 12 to 15 of the entry at
  \<open>6 + 16 * 0\<close>) is \<open>6 + 16 * N\<close> for \<open>N\<close> images; the offset stored for image \<open>i + 1\<close> is
  the offset stored for image \<open>i\<close> plus 40 plus the length of the payload of image \<open>i\<close>
  (colour map and mask, \<open>info_size + getRowStride W * W\<close>), so the stored offsets increase
  strictly; and the \<open>40 + payload\<close> bytes of the container that start at the stored
  offset of image \<open>i\<close> are the bitmap info header and the payload of image \<open>i\<close> and end
  inside the container, so the spans of consecutive images do not overlap.
\<close>

theorem imagesToIco_offsets:
  assumes run: "imagesToIco S images = Inr out" and i: "i < length images"
  shows "\<exists>data info bmp dib.
      toBuffer S (raw S (images ! i)) = Inr (data, info)
    \<and> getBmpInfoHeader info = Inr bmp \<and> getDib data info = Inr dib
    \<and> length dib = info_size info + getRowStride (info_width info) * info_width info
    \<and> readUInt32LE out (6 + 16 * 0 + 12) = 6 + 16 * length images
    \<and> take (40 + length dib) (drop (readUInt32LE out (6 + 16 * i + 12)) out) = bmp @ dib
    \<and> readUInt32LE out (6 + 16 * i + 12) + (40 + length dib) \<le> length out
    \<and> (Suc i < length images \<longrightarrow>
          readUInt32LE out (6 + 16 * Suc i + 12)
            = readUInt32LE out (6 + 16 * i + 12) + (40 + length dib)
        \<and> readUInt32LE out (6 + 16 * i + 12) < readUInt32LE out (6 + 16 * Suc i + 12))"
proof -
  define N where "N = length images"
  from imagesToIco_layout[OF run] obtain header infos dirs bmps dibs where
    hd: "getHeader N = Inr header"
    and l: "length infos = N" "length dirs = N" "length bmps = N" "length dibs = N"
    and each: "\<forall>k<N. \<exists>data.
          toBuffer S (raw S (images ! k)) = Inr (data, infos ! k)
        \<and> getDir (infos ! k) (6 + 16 * N + (\<Sum>d\<leftarrow>take k dibs. 40 + length d)) = Inr (dirs ! k)
        \<and> getBmpInfoHeader (infos ! k) = Inr (bmps ! k)
        \<and> getDib data (infos ! k) = Inr (dibs ! k)"
    and out: "out = header @ concat dirs @ concat (map2 (\<lambda>bmp dib. bmp @ dib) bmps dibs)"
    and len: "length out = 6 + 16 * N + (\<Sum>d\<leftarrow>dibs. 40 + length d)"
    unfolding N_def[symmetric] by blast
  have iN: "i < N" using i by (simp add: N_def)
  have h6: "length header = 6" using getHeader_Inr[OF hd] by simp
  have d16: "\<forall>d\<in>set dirs. length d = 16"
  proof
    fix d assume "d \<in> set dirs"
    then obtain k where k: "k < N" "d = dirs ! k" using l(2) by (auto simp add: in_set_conv_nth)
    from each[rule_format, OF k(1)] show "length d = 16"
      using getDir_Inr k(2) by blast
  qed
  have b40: "\<forall>k<length bmps. length (bmps ! k) = 40"
    using each getBmpInfoHeader_Inr l(3) by blast
  define off where "off k = 6 + 16 * N + (\<Sum>d\<leftarrow>take k dibs. 40 + length d)" for k
  have field: "readUInt32LE out (6 + 16 * k + 12) = off k" if "k < N" for k
  proof -
    from each[rule_format, OF that] have "getDir (infos ! k) (off k) = Inr (dirs ! k)"
      unfolding off_def by blast
    then have "readUInt32LE (dirs ! k) 12 = off k" by (rule getDir_offset_field)
    moreover have "readUInt32LE out (6 + 16 * k + 12) = readUInt32LE (dirs ! k) 12"
      unfolding out using that l(2) by (intro container_dir_offset[OF h6 d16]) simp
    ultimately show ?thesis by simp
  qed
  have next_off: "off (Suc k) = off k + (40 + length (dibs ! k))" if "k < N" for k
    using that l(4) by (simp add: off_def take_Suc_conv_app_nth)
  from each[rule_format, OF iN] obtain data where
    e: "toBuffer S (raw S (images ! i)) = Inr (data, infos ! i)"
       "getBmpInfoHeader (infos ! i) = Inr (bmps ! i)" "getDib data (infos ! i) = Inr (dibs ! i)"
    by blast
  have dl: "length (dibs ! i)
      = info_size (infos ! i) + getRowStride (info_width (infos ! i)) * info_width (infos ! i)"
    by (rule getDib_length[OF e(3)])
  have first: "readUInt32LE out (6 + 16 * 0 + 12) = 6 + 16 * N"
  proof -
    have "0 < N" using iN by simp
    from field[OF this] show ?thesis by (simp add: off_def)
  qed
  have iD: "i < length dibs" using iN l(4) by simp
  have bl: "length bmps = length dibs" using l by simp
  have split: "out = (header @ concat dirs @ concat (map2 (\<lambda>bmp dib. bmp @ dib) (take i bmps) (take i dibs)))
                 @ (bmps ! i @ dibs ! i)
                 @ concat (map2 (\<lambda>bmp dib. bmp @ dib) (drop (Suc i) bmps) (drop (Suc i) dibs))"
    unfolding out using bodies_split(1)[OF bl iD b40] by simp
  have pre: "length (header @ concat dirs @ concat (map2 (\<lambda>bmp dib. bmp @ dib) (take i bmps) (take i dibs)))
               = off i"
    using bodies_split(2)[OF bl iD b40] length_concat_uniform[OF d16] h6 l(2)
    by (simp add: off_def)
  have b40i: "length (bmps ! i) = 40" using b40 iN l(3) by simp
  have payload: "take (40 + length (dibs ! i)) (drop (off i) out) = bmps ! i @ dibs ! i"
  proof -
    have "drop (off i) out = (bmps ! i @ dibs ! i)
                 @ concat (map2 (\<lambda>bmp dib. bmp @ dib) (drop (Suc i) bmps) (drop (Suc i) dibs))"
      by (subst split, subst pre[symmetric], rule append_eq_conv_conj[THEN iffD1, THEN conjunct2, symmetric]) simp
    then show ?thesis using b40i by simp
  qed
  have inside: "off i + (40 + length (dibs ! i)) \<le> length out"
  proof -
    have "length out = off i + length (bmps ! i @ dibs ! i)
        + length (concat (map2 (\<lambda>bmp dib. bmp @ dib) (drop (Suc i) bmps) (drop (Suc i) dibs)))"
      by (subst split, subst pre[symmetric]) simp
    then show ?thesis using b40i by simp
  qed
  have succ: "readUInt32LE out (6 + 16 * Suc i + 12) = off i + (40 + length (dibs ! i))"
    if "Suc i < N"
    using field[OF that] next_off[OF iN] by simp
  show ?thesis
    apply (rule exI[of _ data], rule exI[of _ "infos ! i"])
    apply (rule exI[of _ "bmps ! i"], rule exI[of _ "dibs ! i"])
    using e dl first payload inside succ field[OF iN] unfolding N_def[symmetric]
    by simp
qed

theorem imagesToIco_offsets_witness:
  "\<exists>out. imagesToIco \<lparr>toBuffer = Inr, resize = (\<lambda>img w h k. img), clone = (\<lambda>img. img), raw = (\<lambda>img. img)\<rparr>
       [([10, 20, 30, 255], \<lparr>info_format = ''raw'', info_width = 1, info_height = 1, info_size = 4\<rparr>),
        ([1, 2, 3, 0], \<lparr>info_format = ''raw'', info_width = 1, info_height = 1, info_size = 4\<rparr>)] = Inr out
     \<and> readUInt32LE out 18 = 38 \<and> readUInt32LE out 34 = 86 \<and> 86 + 48 \<le> length out"
proof -
  define S :: "(buffer \<times> OutputInfo) sharp" where
    "S = \<lparr>toBuffer = Inr, resize = (\<lambda>img w h k. img), clone = (\<lambda>img. img), raw = (\<lambda>img. img)\<rparr>"
  define images :: "(buffer \<times> OutputInfo) list" where
    "images = [([10, 20, 30, 255], \<lparr>info_format = ''raw'', info_width = 1, info_height = 1, info_size = 4\<rparr>),
        ([1, 2, 3, 0], \<lparr>info_format = ''raw'', info_width = 1, info_height = 1, info_size = 4\<rparr>)]"
  have "\<exists>out. imagesToIco S images = Inr out"
    by (rule imagesToIco_total[of S images images])
      (simp_all add: S_def images_def getRowStride_def)
  then obtain out where run: "imagesToIco S images = Inr out" by blast
  have i: "0 < length images" "1 < length images" by (simp_all add: images_def)
  from imagesToIco_offsets[OF run i(1)] imagesToIco_offsets[OF run i(2)]
  have "readUInt32LE out 18 = 38 \<and> readUInt32LE out 34 = 86 \<and> 86 + 48 \<le> length out"
    by (auto simp add: S_def images_def getRowStride_def)
  then show ?thesis using run unfolding S_def images_def by blast
qed

section \<open>The converter end to end\<close>

lemma getRowStride_le: "W \<le> 256 \<Longrightarrow> getRowStride W \<le> 32"
proof -
  assume W: "W \<le> 256"
  show ?thesis
  proof (cases "W mod 32 = 0")
    case True
    then show ?thesis using W by (simp add: getRowStride_def)
  next
    case False
    then have "W \<noteq> 256" by auto
    then have "W div 32 < 8" using W by simp
    then show ?thesis using False by (simp add: getRowStride_def)
  qed
qed

lemma payload_le:
  assumes "W \<le> 256"
  shows "W * W * 4 + getRowStride W * W \<le> 270336"
proof -
  have "W * W \<le> 256 * 256" using assms by (intro mult_mono) simp_all
  moreover have "getRowStride W * W \<le> 32 * 256"
    using getRowStride_le[OF assms] assms by (intro mult_mono) simp_all
  ultimately show ?thesis by simp
qed

lemma sum_list_le:
  fixes f :: "'a \<Rightarrow> nat"
  shows "\<forall>r\<in>set rs. f r \<le> B \<Longrightarrow> sum_list (map f rs) \<le> B * length rs"
  by (induction rs) auto

lemma toIco_valid:
  assumes "toBuffer S image0 = Inr (d0, info0)"
    and "info_format info0 = ''png''" and "info_width info0 = info_height info0"
  shows "toIco S image0 =
           imagesToIco S
             (map (\<lambda>targetSize.
                    resize S (clone S (if info_width info0 \<noteq> 256
                                       then resize S image0 256 256 ''cubic'' else image0))
                      targetSize targetSize ''cubic'') sizeList
              @ [if info_width info0 \<noteq> 256 then resize S image0 256 256 ''cubic'' else image0])"
  unfolding toIco_def using assms by (simp add: Let_def)

lemma sum_list_nth_cong:
  assumes "length xs = length ys" "\<forall>i<length xs. f (xs ! i) = g (ys ! i)"
  shows "sum_list (map f xs) = (sum_list (map g ys) :: nat)"
proof -
  have "map f xs = map g ys"
    using assms by (intro nth_equalityI) simp_all
  then show ?thesis by simp
qed

text \<open>
  Claim C3. For a square png source, when the extraction of each of the four images of the
  list gives an RGBA8 description (\<open>info_size = W * W * 4\<close>) of width at most 256, the
  converter returns a container of length \<open>6 + 16 * 4\<close> plus, for each of the four images,
  \<open>40 + W * W * 4 + getRowStride W * W\<close>. Each payload has length
  \<open>W * W * 4 + getRowStride W * W\<close>, and the container is the header, the four 16-byte
  directory entries and the four pairs of a 40-byte info header and a payload one after
  the other, neither cut nor filled: the length given to the concatenation is the length
  of the concatenated buffers.
\<close>

theorem toIco_length:
  assumes src: "toBuffer S image0 = Inr (d0, info0)"
    and png: "info_format info0 = ''png''" and square: "info_width info0 = info_height info0"
    and image1: "image1 = (if info_width info0 \<noteq> 256 then resize S image0 256 256 ''cubic'' else image0)"
    and raws: "map (\<lambda>img. toBuffer S (raw S img))
                 (map (\<lambda>targetSize. resize S (clone S image1) targetSize targetSize ''cubic'') sizeList
                  @ [image1]) = map Inr raws"
    and valid: "\<forall>r\<in>set raws. info_width (snd r) \<le> 256
                  \<and> info_size (snd r) = info_width (snd r) * info_width (snd r) * 4"
  shows "\<exists>out. toIco S image0 = Inr out \<and> length raws = 4
    \<and> length out = 6 + 16 * 4
        + (\<Sum>r\<leftarrow>raws. 40 + (info_width (snd r) * info_width (snd r) * 4
                              + getRowStride (info_width (snd r)) * info_width (snd r)))
    \<and> (\<exists>header dirs bmps dibs.
          length header = 6 \<and> length dirs = 4 \<and> length bmps = 4 \<and> length dibs = 4
        \<and> (\<forall>i<4. length (dirs ! i) = 16 \<and> length (bmps ! i) = 40
              \<and> getDib (fst (raws ! i)) (snd (raws ! i)) = Inr (dibs ! i)
              \<and> length (dibs ! i) = info_width (snd (raws ! i)) * info_width (snd (raws ! i)) * 4
                  + getRowStride (info_width (snd (raws ! i))) * info_width (snd (raws ! i)))
        \<and> out = header @ concat dirs @ concat (map2 (\<lambda>bmp dib. bmp @ dib) bmps dibs))"
proof -
  define images where
    "images = map (\<lambda>targetSize. resize S (clone S image1) targetSize targetSize ''cubic'') sizeList
                @ [image1]"
  define pay where "pay r = 40 + (info_size (snd r)
      + getRowStride (info_width (snd r)) * info_width (snd r))" for r :: "buffer \<times> OutputInfo"
  have n4: "length images = 4" by (simp add: images_def sizeList_def)
  have r4: "length raws = 4"
    using arg_cong[OF raws, of length] n4 by (simp add: images_def)
  have rawi: "toBuffer S (raw S (images ! i)) = Inr (raws ! i)" if "i < 4" for i
  proof -
    have "map (\<lambda>img. toBuffer S (raw S img)) images ! i = map Inr raws ! i"
      using raws by (simp add: images_def)
    then show ?thesis using that n4 r4 by simp
  qed
  have v: "\<forall>r\<in>set raws. info_size (snd r) = info_width (snd r) * info_width (snd r) * 4
                        \<and> info_width (snd r) * 2 < 2147483648"
    using valid by auto
  have "\<forall>r\<in>set raws. pay r \<le> 270376"
  proof
    fix r assume "r \<in> set raws"
    then have "info_width (snd r) \<le> 256"
      "info_size (snd r) = info_width (snd r) * info_width (snd r) * 4"
      using valid by auto
    then show "pay r \<le> 270376" using payload_le[of "info_width (snd r)"] by (simp add: pay_def)
  qed
  from sum_list_le[OF this] have "sum_list (map pay raws) \<le> 270376 * 4" using r4 by simp
  then have bound: "6 + 16 * length images + (\<Sum>r\<leftarrow>raws. 40 + (info_size (snd r)
           + getRowStride (info_width (snd r)) * info_width (snd r))) < 4294967296"
    using n4 unfolding pay_def by simp
  have "\<exists>out. imagesToIco S images = Inr out"
    by (rule imagesToIco_total[OF raws[folded images_def] v bound]) (simp add: n4)
  then obtain out where run: "imagesToIco S images = Inr out" by blast
  have top: "toIco S image0 = Inr out"
    using toIco_valid[OF src png square] run unfolding images_def image1 by simp
  from imagesToIco_layout[OF run] obtain header infos dirs bmps dibs where
    hd: "getHeader 4 = Inr header"
    and l: "length infos = 4" "length dirs = 4" "length bmps = 4" "length dibs = 4"
    and each: "\<forall>i<4. \<exists>data.
          toBuffer S (raw S (images ! i)) = Inr (data, infos ! i)
        \<and> getDir (infos ! i) (6 + 16 * 4 + (\<Sum>d\<leftarrow>take i dibs. 40 + length d)) = Inr (dirs ! i)
        \<and> getBmpInfoHeader (infos ! i) = Inr (bmps ! i)
        \<and> getDib data (infos ! i) = Inr (dibs ! i)"
    and out: "out = header @ concat dirs @ concat (map2 (\<lambda>bmp dib. bmp @ dib) bmps dibs)"
    and len: "length out = 6 + 16 * 4 + (\<Sum>d\<leftarrow>dibs. 40 + length d)"
    unfolding n4 by blast
  have h6: "length header = 6" using getHeader_Inr[OF hd] by simp
  have piece: "length (dirs ! i) = 16 \<and> length (bmps ! i) = 40
              \<and> getDib (fst (raws ! i)) (snd (raws ! i)) = Inr (dibs ! i)
              \<and> length (dibs ! i) = info_width (snd (raws ! i)) * info_width (snd (raws ! i)) * 4
                  + getRowStride (info_width (snd (raws ! i))) * info_width (snd (raws ! i))"
    if i: "i < 4" for i
  proof -
    from each[rule_format, OF i] obtain data where
      e: "toBuffer S (raw S (images ! i)) = Inr (data, infos ! i)"
         "getDir (infos ! i) (6 + 16 * 4 + (\<Sum>d\<leftarrow>take i dibs. 40 + length d)) = Inr (dirs ! i)"
         "getBmpInfoHeader (infos ! i) = Inr (bmps ! i)" "getDib data (infos ! i) = Inr (dibs ! i)"
      by blast
    have r: "raws ! i = (data, infos ! i)" using rawi[OF i] e(1) by simp
    have "raws ! i \<in> set raws" using i r4 by simp
    then have sz: "info_size (infos ! i) = info_width (infos ! i) * info_width (infos ! i) * 4"
      using valid r by force
    show ?thesis
      using getDir_Inr[OF e(2)] getBmpInfoHeader_Inr[OF e(3)] e(4) getDib_length[OF e(4)] sz
      by (simp add: r)
  qed
  have "(\<Sum>d\<leftarrow>dibs. 40 + length d)
          = (\<Sum>r\<leftarrow>raws. 40 + (info_width (snd r) * info_width (snd r) * 4
                              + getRowStride (info_width (snd r)) * info_width (snd r)))"
    by (rule sum_list_nth_cong) (use l r4 piece in auto)
  then have len': "length out = 6 + 16 * 4
        + (\<Sum>r\<leftarrow>raws. 40 + (info_width (snd r) * info_width (snd r) * 4
                              + getRowStride (info_width (snd r)) * info_width (snd r)))"
    using len by simp
  have "\<exists>header dirs bmps dibs.
          length header = 6 \<and> length dirs = 4 \<and> length bmps = 4 \<and> length dibs = 4
        \<and> (\<forall>i<4. length (dirs ! i) = 16 \<and> length (bmps ! i) = 40
              \<and> getDib (fst (raws ! i)) (snd (raws ! i)) = Inr (dibs ! i)
              \<and> length (dibs ! i) = info_width (snd (raws ! i)) * info_width (snd (raws ! i)) * 4
                  + getRowStride (info_width (snd (raws ! i))) * info_width (snd (raws ! i)))
        \<and> out = header @ concat dirs @ concat (map2 (\<lambda>bmp dib. bmp @ dib) bmps dibs)"
    using h6 l piece out by blast
  then show ?thesis using top r4 len' by blast
qed

theorem toIco_length_witness:
  "\<exists>out. toIco \<lparr>toBuffer = Inr,
                 resize = (\<lambda>img w h k. ([], \<lparr>info_format = ''raw'', info_width = w, info_height = h,
                                              info_size = w * h * 4\<rparr>)),
                 clone = (\<lambda>img. img), raw = (\<lambda>img. img)\<rparr>
            ([], \<lparr>info_format = ''png'', info_width = 100, info_height = 100, info_size = 40000\<rparr>)
          = Inr out
     \<and> length out = 285478"
proof -
  define mk :: "nat \<Rightarrow> nat \<Rightarrow> buffer \<times> OutputInfo" where
    "mk w h = ([], \<lparr>info_format = ''raw'', info_width = w, info_height = h, info_size = w * h * 4\<rparr>)"
    for w h
  define S :: "(buffer \<times> OutputInfo) sharp" where
    "S = \<lparr>toBuffer = Inr, resize = (\<lambda>img w h k. mk w h), clone = (\<lambda>img. img), raw = (\<lambda>img. img)\<rparr>"
  define image0 :: "buffer \<times> OutputInfo" where
    "image0 = ([], \<lparr>info_format = ''png'', info_width = 100, info_height = 100, info_size = 40000\<rparr>)"
  have src: "toBuffer S image0 = Inr ([], \<lparr>info_format = ''png'', info_width = 100, info_height = 100, info_size = 40000\<rparr>)"
    by (simp add: S_def image0_def)
  from toIco_length[OF src, of "mk 256 256" "[mk 48 48, mk 32 32, mk 16 16, mk 256 256]"]
  have "\<exists>out. toIco S image0 = Inr out \<and> length out = 285478"
    by (simp add: S_def sizeList_def mk_def getRowStride_def) blast
  then show ?thesis unfolding S_def image0_def mk_def .
qed

lemma addImages_cong:
  assumes "map (\<lambda>img. toBuffer S1 (raw S1 img)) l1 = map (\<lambda>img. toBuffer S2 (raw S2 img)) l2"
  shows "foldE (addImage S1) l1 st = foldE (addImage S2) l2 st"
  using assms
proof (induction l1 arbitrary: l2 st)
  case Nil
  then show ?case by simp
next
  case (Cons i1 l1)
  from Cons.prems obtain i2 l2' where l2: "l2 = i2 # l2'"
    and hd: "toBuffer S1 (raw S1 i1) = toBuffer S2 (raw S2 i2)"
    and tl: "map (\<lambda>img. toBuffer S1 (raw S1 img)) l1 = map (\<lambda>img. toBuffer S2 (raw S2 img)) l2'"
    by (cases l2) auto
  have step: "addImage S1 i1 st = addImage S2 i2 st"
    by (simp add: addImage_def hd)
  show ?case
    unfolding l2 using step Cons.IH[OF tl] by (simp split: sum.splits)
qed

lemma imagesToIco_cong:
  assumes "map (\<lambda>img. toBuffer S1 (raw S1 img)) l1 = map (\<lambda>img. toBuffer S2 (raw S2 img)) l2"
  shows "imagesToIco S1 l1 = imagesToIco S2 l2"
proof -
  have "length l1 = length l2" using assms by (rule map_eq_imp_length_eq)
  then show ?thesis
    unfolding imagesToIco_def using addImages_cong[OF assms] by simp
qed

lemma toIco_rejects:
  assumes "toBuffer S image0 = Inr (d0, info0)"
    and "info_format info0 \<noteq> ''png'' \<or> info_width info0 \<noteq> info_height info0"
  shows "toIco S image0 = Inl InvalidInput"
  unfolding toIco_def using assms by (auto simp add: Let_def)

lemma toIco_fails:
  assumes "toBuffer S image0 = Inl e"
  shows "toIco S image0 = Inl e"
  unfolding toIco_def using assms by simp

lemma imagesToIco_four_returns:
  assumes n4: "length images = 4"
    and raws: "map (\<lambda>img. toBuffer S (raw S img)) images = map Inr raws"
    and valid: "\<forall>r\<in>set raws. info_width (snd r) \<le> 256
                  \<and> info_size (snd r) = info_width (snd r) * info_width (snd r) * 4"
  shows "\<exists>out header dirs bmps dibs.
      imagesToIco S images = Inr out \<and> getHeader 4 = Inr header
    \<and> length dirs = 4 \<and> length bmps = 4 \<and> length dibs = 4
    \<and> (\<forall>i<4. \<exists>off.
          toBuffer S (raw S (images ! i)) = Inr (raws ! i)
        \<and> getDir (snd (raws ! i)) off = Inr (dirs ! i)
        \<and> getBmpInfoHeader (snd (raws ! i)) = Inr (bmps ! i)
        \<and> getDib (fst (raws ! i)) (snd (raws ! i)) = Inr (dibs ! i))
    \<and> out = header @ concat dirs @ concat (map2 (\<lambda>bmp dib. bmp @ dib) bmps dibs)"
proof -
  define pay where "pay r = 40 + (info_size (snd r)
      + getRowStride (info_width (snd r)) * info_width (snd r))" for r :: "buffer \<times> OutputInfo"
  have r4: "length raws = 4"
    using arg_cong[OF raws, of length] n4 by simp
  have rawi: "toBuffer S (raw S (images ! i)) = Inr (raws ! i)" if "i < 4" for i
  proof -
    have "map (\<lambda>img. toBuffer S (raw S img)) images ! i = map Inr raws ! i"
      using raws by simp
    then show ?thesis using that n4 r4 by simp
  qed
  have v: "\<forall>r\<in>set raws. info_size (snd r) = info_width (snd r) * info_width (snd r) * 4
                        \<and> info_width (snd r) * 2 < 2147483648"
    using valid by auto
  have "\<forall>r\<in>set raws. pay r \<le> 270376"
  proof
    fix r assume "r \<in> set raws"
    then have "info_width (snd r) \<le> 256"
      "info_size (snd r) = info_width (snd r) * info_width (snd r) * 4"
      using valid by auto
    then show "pay r \<le> 270376" using payload_le[of "info_width (snd r)"] by (simp add: pay_def)
  qed
  from sum_list_le[OF this] have "sum_list (map pay raws) \<le> 270376 * 4" using r4 by simp
  then have bound: "6 + 16 * length images + (\<Sum>r\<leftarrow>raws. 40 + (info_size (snd r)
           + getRowStride (info_width (snd r)) * info_width (snd r))) < 4294967296"
    using n4 unfolding pay_def by simp
  have "\<exists>out. imagesToIco S images = Inr out"
    by (rule imagesToIco_total[OF raws v bound]) (simp add: n4)
  then obtain out where run: "imagesToIco S images = Inr out" by blast
  from imagesToIco_layout[OF run] obtain header infos dirs bmps dibs where
    hd: "getHeader 4 = Inr header"
    and l: "length infos = 4" "length dirs = 4" "length bmps = 4" "length dibs = 4"
    and each: "\<forall>i<4. \<exists>data.
          toBuffer S (raw S (images ! i)) = Inr (data, infos ! i)
        \<and> getDir (infos ! i) (6 + 16 * 4 + (\<Sum>d\<leftarrow>take i dibs. 40 + length d)) = Inr (dirs ! i)
        \<and> getBmpInfoHeader (infos ! i) = Inr (bmps ! i)
        \<and> getDib data (infos ! i) = Inr (dibs ! i)"
    and out: "out = header @ concat dirs @ concat (map2 (\<lambda>bmp dib. bmp @ dib) bmps dibs)"
    unfolding n4 by blast
  have piece: "\<exists>off.
          toBuffer S (raw S (images ! i)) = Inr (raws ! i)
        \<and> getDir (snd (raws ! i)) off = Inr (dirs ! i)
        \<and> getBmpInfoHeader (snd (raws ! i)) = Inr (bmps ! i)
        \<and> getDib (fst (raws ! i)) (snd (raws ! i)) = Inr (dibs ! i)"
    if i: "i < 4" for i
  proof -
    from each[rule_format, OF i] obtain data where
      e: "toBuffer S (raw S (images ! i)) = Inr (data, infos ! i)"
         "getDir (infos ! i) (6 + 16 * 4 + (\<Sum>d\<leftarrow>take i dibs. 40 + length d)) = Inr (dirs ! i)"
         "getBmpInfoHeader (infos ! i) = Inr (bmps ! i)" "getDib data (infos ! i) = Inr (dibs ! i)"
      by blast
    have r: "raws ! i = (data, infos ! i)" using rawi[OF i] e(1) by simp
    show ?thesis using rawi[OF i] e(2,3,4) by (auto simp add: r)
  qed
  show ?thesis using run hd l(2,3,4) piece out by blast
qed

lemma getDir_width_byte:
  assumes "getDir info off = Inr dir"
  shows "unat (dir ! 0) = (if info_width info < 256 then info_width info else 0)"
proof -
  from getDir_Inr[OF assms] have b: "info_size info + 40 < 4294967296" "off < 4294967296" by simp_all
  from getDir_fields[OF b] assms show ?thesis by auto
qed

text \<open>
  Claim C6. For a square png source the converter encodes the image list
  \<open>[48, 32, 16, canonical]\<close>: \<open>canonical\<close> is the source itself when its width is 256 and
  otherwise the result of the library's \<open>resize\<close> to 256 by 256 with the cubic kernel, and
  the first three entries are the results of \<open>resize\<close> with the cubic kernel to 48, 32 and
  16 on a \<open>clone\<close> of \<open>canonical\<close>. Every container the converter returns holds the four
  directory entries and then the four pairs of info header and payload in the order of
  this list. When the raw extraction of the four images of the list gives RGBA8
  descriptions of width at most 256, the converter does return a container, and it is the
  header, the directory entries of the four extractions and their pairs of info header
  and payload, in the order of the list.
\<close>

theorem toIco_image_list:
  assumes src: "toBuffer S image0 = Inr (d0, info0)"
    and png: "info_format info0 = ''png''" and square: "info_width info0 = info_height info0"
    and canonical: "canonical = (if info_width info0 = 256 then image0
                                  else resize S image0 256 256 ''cubic'')"
    and images: "images = [resize S (clone S canonical) 48 48 ''cubic'',
                           resize S (clone S canonical) 32 32 ''cubic'',
                           resize S (clone S canonical) 16 16 ''cubic'',
                           canonical]"
  shows "toIco S image0 = imagesToIco S images
    \<and> (\<forall>out. toIco S image0 = Inr out \<longrightarrow>
         (\<exists>header infos dirs bmps dibs.
             getHeader 4 = Inr header
           \<and> length infos = 4 \<and> length dirs = 4 \<and> length bmps = 4 \<and> length dibs = 4
           \<and> (\<forall>i<4. \<exists>data off.
                 toBuffer S (raw S (images ! i)) = Inr (data, infos ! i)
               \<and> getDir (infos ! i) off = Inr (dirs ! i)
               \<and> getBmpInfoHeader (infos ! i) = Inr (bmps ! i)
               \<and> getDib data (infos ! i) = Inr (dibs ! i))
           \<and> out = header @ concat dirs @ concat (map2 (\<lambda>bmp dib. bmp @ dib) bmps dibs)))
    \<and> (\<forall>raws.
          map (\<lambda>img. toBuffer S (raw S img)) images = map Inr raws
        \<and> (\<forall>r\<in>set raws. info_width (snd r) \<le> 256
               \<and> info_size (snd r) = info_width (snd r) * info_width (snd r) * 4)
        \<longrightarrow> (\<exists>out header dirs bmps dibs.
               toIco S image0 = Inr out \<and> getHeader 4 = Inr header
             \<and> length dirs = 4 \<and> length bmps = 4 \<and> length dibs = 4
             \<and> (\<forall>i<4. \<exists>off.
                   toBuffer S (raw S (images ! i)) = Inr (raws ! i)
                 \<and> getDir (snd (raws ! i)) off = Inr (dirs ! i)
                 \<and> getBmpInfoHeader (snd (raws ! i)) = Inr (bmps ! i)
                 \<and> getDib (fst (raws ! i)) (snd (raws ! i)) = Inr (dibs ! i))
             \<and> out = header @ concat dirs @ concat (map2 (\<lambda>bmp dib. bmp @ dib) bmps dibs)))"
proof -
  have c: "(if info_width info0 \<noteq> 256 then resize S image0 256 256 ''cubic'' else image0) = canonical"
    by (simp add: canonical)
  have eq: "toIco S image0 = imagesToIco S images"
    unfolding toIco_valid[OF src png square] c images by (simp add: sizeList_def)
  have n4: "length images = 4" by (simp add: images)
  have layout: "\<exists>header infos dirs bmps dibs.
             getHeader 4 = Inr header
           \<and> length infos = 4 \<and> length dirs = 4 \<and> length bmps = 4 \<and> length dibs = 4
           \<and> (\<forall>i<4. \<exists>data off.
                 toBuffer S (raw S (images ! i)) = Inr (data, infos ! i)
               \<and> getDir (infos ! i) off = Inr (dirs ! i)
               \<and> getBmpInfoHeader (infos ! i) = Inr (bmps ! i)
               \<and> getDib data (infos ! i) = Inr (dibs ! i))
           \<and> out = header @ concat dirs @ concat (map2 (\<lambda>bmp dib. bmp @ dib) bmps dibs)"
    if "toIco S image0 = Inr out" for out
  proof -
    from that eq have run: "imagesToIco S images = Inr out" by simp
    from imagesToIco_layout[OF run] show ?thesis unfolding n4 by blast
  qed
  have returns: "\<exists>out header dirs bmps dibs.
               toIco S image0 = Inr out \<and> getHeader 4 = Inr header
             \<and> length dirs = 4 \<and> length bmps = 4 \<and> length dibs = 4
             \<and> (\<forall>i<4. \<exists>off.
                   toBuffer S (raw S (images ! i)) = Inr (raws ! i)
                 \<and> getDir (snd (raws ! i)) off = Inr (dirs ! i)
                 \<and> getBmpInfoHeader (snd (raws ! i)) = Inr (bmps ! i)
                 \<and> getDib (fst (raws ! i)) (snd (raws ! i)) = Inr (dibs ! i))
             \<and> out = header @ concat dirs @ concat (map2 (\<lambda>bmp dib. bmp @ dib) bmps dibs)"
    if "map (\<lambda>img. toBuffer S (raw S img)) images = map Inr raws"
      and "\<forall>r\<in>set raws. info_width (snd r) \<le> 256
               \<and> info_size (snd r) = info_width (snd r) * info_width (snd r) * 4"
    for raws
    using imagesToIco_four_returns[OF n4 that] unfolding eq .
  show ?thesis using eq layout returns by blast
qed

theorem toIco_image_list_witness:
  "\<exists>out. toIco \<lparr>toBuffer = Inr,
                 resize = (\<lambda>img w h k. ([], \<lparr>info_format = ''raw'', info_width = w, info_height = h,
                                              info_size = w * h * 4\<rparr>)),
                 clone = (\<lambda>img. img), raw = (\<lambda>img. img)\<rparr>
            ([], \<lparr>info_format = ''png'', info_width = 100, info_height = 100, info_size = 40000\<rparr>)
          = Inr out
     \<and> unat (out ! 6) = 48 \<and> unat (out ! 22) = 32 \<and> unat (out ! 38) = 16 \<and> unat (out ! 54) = 0"
proof -
  define mk :: "nat \<Rightarrow> nat \<Rightarrow> buffer \<times> OutputInfo" where
    "mk w h = ([], \<lparr>info_format = ''raw'', info_width = w, info_height = h, info_size = w * h * 4\<rparr>)"
    for w h
  define S :: "(buffer \<times> OutputInfo) sharp" where
    "S = \<lparr>toBuffer = Inr, resize = (\<lambda>img w h k. mk w h), clone = (\<lambda>img. img), raw = (\<lambda>img. img)\<rparr>"
  define image0 :: "buffer \<times> OutputInfo" where
    "image0 = ([], \<lparr>info_format = ''png'', info_width = 100, info_height = 100, info_size = 40000\<rparr>)"
  define images where "images = [mk 48 48, mk 32 32, mk 16 16, mk 256 256]"
  have src: "toBuffer S image0 = Inr ([], \<lparr>info_format = ''png'', info_width = 100, info_height = 100, info_size = 40000\<rparr>)"
    by (simp add: S_def image0_def)
  have "canonical_ok": "mk 256 256 = (if info_width \<lparr>info_format = ''png'', info_width = 100, info_height = 100, info_size = 40000\<rparr> = 256
       then image0 else resize S image0 256 256 ''cubic'')"
    by (simp add: S_def)
  have list_ok: "images = [resize S (clone S (mk 256 256)) 48 48 ''cubic'',
                           resize S (clone S (mk 256 256)) 32 32 ''cubic'',
                           resize S (clone S (mk 256 256)) 16 16 ''cubic'', mk 256 256]"
    by (simp add: S_def images_def)
  have raws: "map (\<lambda>img. toBuffer S (raw S img)) images = map Inr images"
    by (simp add: S_def)
  have valid: "\<forall>r\<in>set images. info_width (snd r) \<le> 256
               \<and> info_size (snd r) = info_width (snd r) * info_width (snd r) * 4"
    by (simp add: images_def mk_def)
  have png: "info_format \<lparr>info_format = ''png'', info_width = 100, info_height = 100, info_size = 40000\<rparr> = ''png''"
    and square: "info_width \<lparr>info_format = ''png'', info_width = 100, info_height = 100, info_size = 40000\<rparr>
                 = info_height \<lparr>info_format = ''png'', info_width = 100, info_height = 100, info_size = 40000\<rparr>"
    by simp_all
  note list = toIco_image_list[OF src png square canonical_ok list_ok]
  from list[THEN conjunct2, THEN conjunct2, rule_format, of images] raws valid
  obtain out header dirs bmps dibs where
    run: "toIco S image0 = Inr out" and hd: "getHeader 4 = Inr header"
    and l: "length dirs = 4"
    and each: "\<forall>i<4. \<exists>off. getDir (snd (images ! i)) off = Inr (dirs ! i)"
    and out: "out = header @ concat dirs @ concat (map2 (\<lambda>bmp dib. bmp @ dib) bmps dibs)"
    by blast
  have h6: "length header = 6" using getHeader_Inr[OF hd] by simp
  have d16: "\<forall>d\<in>set dirs. length d = 16"
  proof
    fix d assume "d \<in> set dirs"
    then obtain i where i: "i < 4" "d = dirs ! i" using l by (auto simp add: in_set_conv_nth)
    from each[rule_format, OF i(1)] show "length d = 16"
      using getDir_Inr i(2) by blast
  qed
  have byte: "unat (out ! (6 + 16 * i + 0))
                = (if info_width (snd (images ! i)) < 256 then info_width (snd (images ! i)) else 0)"
    if i: "i < 4" for i
  proof -
    from each[rule_format, OF i] obtain off where "getDir (snd (images ! i)) off = Inr (dirs ! i)"
      by blast
    then have "unat (dirs ! i ! 0)
        = (if info_width (snd (images ! i)) < 256 then info_width (snd (images ! i)) else 0)"
      by (rule getDir_width_byte)
    moreover have "out ! (6 + 16 * i + 0) = dirs ! i ! 0"
      unfolding out using i l by (intro container_dir_byte[OF h6 d16]) simp_all
    ultimately show ?thesis by simp
  qed
  have "unat (out ! 6) = 48" "unat (out ! 22) = 32" "unat (out ! 38) = 16" "unat (out ! 54) = 0"
    using byte[of 0] byte[of 1] byte[of 2] byte[of 3] by (simp_all add: images_def mk_def)
  then show ?thesis using run unfolding S_def image0_def mk_def by blast
qed

text \<open>
  Claim C7. For a source whose description has a format other than png, or a width that
  differs from its height, the converter fails with \<open>InvalidInput\<close> and returns no bytes.
  It does so whatever the methods \<open>resize\<close>, \<open>clone\<close> and \<open>raw\<close> of the library are: none
  of them is consulted before the failure.
\<close>

theorem toIco_invalid_input:
  assumes "toBuffer S image0 = Inr (d0, info0)"
    and "info_format info0 \<noteq> ''png'' \<or> info_width info0 \<noteq> info_height info0"
  shows "toIco S image0 = Inl InvalidInput
    \<and> toIco (S\<lparr>resize := rs, clone := cl, raw := rw\<rparr>) image0 = Inl InvalidInput
    \<and> (\<forall>out. toIco S image0 \<noteq> Inr out)"
proof -
  have 1: "toIco S image0 = Inl InvalidInput"
    by (rule toIco_rejects[OF assms])
  have "toBuffer (S\<lparr>resize := rs, clone := cl, raw := rw\<rparr>) image0 = Inr (d0, info0)"
    using assms(1) by simp
  then have 2: "toIco (S\<lparr>resize := rs, clone := cl, raw := rw\<rparr>) image0 = Inl InvalidInput"
    using assms(2) by (rule toIco_rejects)
  show ?thesis using 1 2 by simp
qed

theorem toIco_invalid_input_witness:
  "toIco \<lparr>toBuffer = Inr, resize = (\<lambda>img w h k. img), clone = (\<lambda>img. img), raw = (\<lambda>img. img)\<rparr>
     ([], \<lparr>info_format = ''png'', info_width = 10, info_height = 20, info_size = 800\<rparr>)
   = Inl InvalidInput"
  using toIco_invalid_input[of
      "\<lparr>toBuffer = Inr, resize = (\<lambda>img w h k. img), clone = (\<lambda>img. img), raw = (\<lambda>img. img)\<rparr>"
      "([], \<lparr>info_format = ''png'', info_width = 10, info_height = 20, info_size = 800\<rparr>)"
      "[]" "\<lparr>info_format = ''png'', info_width = 10, info_height = 20, info_size = 800\<rparr>"]
  by simp

text \<open>
  Claim C9. The result of the converter depends only on what the library returns: two
  runs, on any two library states and source images, that get the same answer to the
  first \<open>toBuffer\<close> and the same answers to the raw extraction of the four images of the
  list give the same result, byte for byte.
\<close>

theorem toIco_deterministic:
  assumes same_source: "toBuffer S1 image1 = toBuffer S2 image2"
    and same_buffers: "\<forall>d info. toBuffer S1 image1 = Inr (d, info) \<longrightarrow>
        map (\<lambda>img. toBuffer S1 (raw S1 img))
          (map (\<lambda>targetSize.
                 resize S1 (clone S1 (if info_width info \<noteq> 256
                                      then resize S1 image1 256 256 ''cubic'' else image1))
                   targetSize targetSize ''cubic'') sizeList
           @ [if info_width info \<noteq> 256 then resize S1 image1 256 256 ''cubic'' else image1])
      = map (\<lambda>img. toBuffer S2 (raw S2 img))
          (map (\<lambda>targetSize.
                 resize S2 (clone S2 (if info_width info \<noteq> 256
                                      then resize S2 image2 256 256 ''cubic'' else image2))
                   targetSize targetSize ''cubic'') sizeList
           @ [if info_width info \<noteq> 256 then resize S2 image2 256 256 ''cubic'' else image2])"
  shows "toIco S1 image1 = toIco S2 image2"
proof (cases "toBuffer S1 image1")
  case (Inl e)
  then show ?thesis using same_source by (simp add: toIco_fails)
next
  case (Inr r)
  obtain d info where r: "r = (d, info)" by (cases r)
  have b1: "toBuffer S1 image1 = Inr (d, info)" using Inr r by simp
  then have b2: "toBuffer S2 image2 = Inr (d, info)" using same_source by simp
  show ?thesis
  proof (cases "info_format info = ''png'' \<and> info_width info = info_height info")
    case False
    then have bad: "info_format info \<noteq> ''png'' \<or> info_width info \<noteq> info_height info" by simp
    show ?thesis
      using toIco_rejects[OF b1 bad] toIco_rejects[OF b2 bad] by simp
  next
    case True
    then have png: "info_format info = ''png''" and sq: "info_width info = info_height info"
      by simp_all
    show ?thesis
      unfolding toIco_valid[OF b1 png sq] toIco_valid[OF b2 png sq]
      by (rule imagesToIco_cong) (use same_buffers b1 in blast)
  qed
qed

theorem toIco_deterministic_witness:
  "toIco \<lparr>toBuffer = Inr,
          resize = (\<lambda>img w h k. ([], \<lparr>info_format = ''raw'', info_width = w, info_height = h,
                                       info_size = w * h * 4\<rparr>)),
          clone = (\<lambda>img. img), raw = (\<lambda>img. img)\<rparr>
     ([], \<lparr>info_format = ''png'', info_width = 100, info_height = 100, info_size = 40000\<rparr>)
   = toIco \<lparr>toBuffer = Inr,
          resize = (\<lambda>img w h k. ([], \<lparr>info_format = ''raw'', info_width = w, info_height = h,
                                       info_size = w * h * 4\<rparr>)),
          clone = (\<lambda>img. ([], \<lparr>info_format = ''raw'', info_width = 1, info_height = 1,
                                  info_size = 4\<rparr>)),
          raw = (\<lambda>img. img)\<rparr>
     ([], \<lparr>info_format = ''png'', info_width = 100, info_height = 100, info_size = 40000\<rparr>)"
  by (rule toIco_deterministic) (simp_all add: sizeList_def)

section \<open>Buffer accesses of the pixel encoder\<close>

text \<open>
  Claim C10. For an RGBA8 buffer of length \<open>W * W * 4 = info_size\<close> with \<open>W \<ge> 1\<close>, the pixel
  encoder returns (no buffer method throws) a buffer of length
  \<open>info_size + getRowStride W * W\<close>. For every pixel \<open>x, y < W\<close>: the four channel reads are
  inside the input (highest index \<open>(y * W + x) * 4 + 3 < W * W * 4\<close>); the colour-map step
  succeeds on a buffer of the allocated length and changes only the four bytes from
  \<open>((W - y - 1) * W + x) * 4\<close>, which end at or before \<open>W * W * 4\<close>; the mask step succeeds
  and reads and changes only the byte at \<open>W * W * 4 + (W - y - 1) * getRowStride W + x div 8\<close>,
  which lies in the mask region below the allocated length.
\<close>

theorem getDib_in_bounds:
  assumes width: "info_width info = W"
    and size: "info_size info = W * W * 4"
    and data: "length data = W * W * 4"
    and pos: "1 \<le> W"
  shows "(\<exists>dib. getDib data info = Inr dib \<and> length dib = info_size info + getRowStride W * W)
    \<and> (\<forall>x<W. \<forall>y<W.
          (\<exists>cr cg cb ca. getColorPixel data x y W
                            = \<lparr>px_r = Some cr, px_g = Some cg, px_b = Some cb, px_a = Some ca\<rparr>)
        \<and> (y * W + x) * 4 + 3 < length data
        \<and> ((W - y - 1) * W + x) * 4 + 4 \<le> W * W * 4
        \<and> W * W * 4 \<le> W * W * 4 + (W - y - 1) * getRowStride W + x div 8
        \<and> W * W * 4 + (W - y - 1) * getRowStride W + x div 8 < info_size info + getRowStride W * W
        \<and> (\<forall>t. length t = info_size info + getRowStride W * W \<longrightarrow>
              (\<exists>t'. xorPixel data W W y x t = Inr t' \<and> length t' = length t
                 \<and> (\<forall>i. i < ((W - y - 1) * W + x) * 4 \<or> ((W - y - 1) * W + x) * 4 + 4 \<le> i
                        \<longrightarrow> t' ! i = t ! i))
            \<and> (\<exists>t'. andPixel data (W * W * 4) W W y x t = Inr t' \<and> length t' = length t
                 \<and> (\<forall>i. i \<noteq> W * W * 4 + (W - y - 1) * getRowStride W + x div 8
                        \<longrightarrow> t' ! i = t ! i))))"
proof -
  define n where "n = W * W * 4 + getRowStride W * W"
  have sz: "info_size info = info_width info * info_width info * 4" using width size by simp
  from getDib_total[OF sz, of data] obtain dib where dib: "getDib data info = Inr dib" by blast
  have 1: "\<exists>dib. getDib data info = Inr dib \<and> length dib = info_size info + getRowStride W * W"
    using dib getDib_length[OF dib] width by auto
  have 2: "(\<exists>cr cg cb ca. getColorPixel data x y W
                            = \<lparr>px_r = Some cr, px_g = Some cg, px_b = Some cb, px_a = Some ca\<rparr>)
        \<and> (y * W + x) * 4 + 3 < length data
        \<and> ((W - y - 1) * W + x) * 4 + 4 \<le> W * W * 4
        \<and> W * W * 4 \<le> W * W * 4 + (W - y - 1) * getRowStride W + x div 8
        \<and> W * W * 4 + (W - y - 1) * getRowStride W + x div 8 < info_size info + getRowStride W * W
        \<and> (\<forall>t. length t = info_size info + getRowStride W * W \<longrightarrow>
              (\<exists>t'. xorPixel data W W y x t = Inr t' \<and> length t' = length t
                 \<and> (\<forall>i. i < ((W - y - 1) * W + x) * 4 \<or> ((W - y - 1) * W + x) * 4 + 4 \<le> i
                        \<longrightarrow> t' ! i = t ! i))
            \<and> (\<exists>t'. andPixel data (W * W * 4) W W y x t = Inr t' \<and> length t' = length t
                 \<and> (\<forall>i. i \<noteq> W * W * 4 + (W - y - 1) * getRowStride W + x div 8
                        \<longrightarrow> t' ! i = t ! i)))"
    if x: "x < W" and y: "y < W" for x y
  proof -
    have rd: "(y * W + x) * 4 + 3 < length data"
      using cell_bound[OF x y] data by simp
    have px: "\<exists>cr cg cb ca. getColorPixel data x y W
                            = \<lparr>px_r = Some cr, px_g = Some cg, px_b = Some cb, px_a = Some ca\<rparr>"
      using rd by (simp add: getColorPixel_def Let_def index_in)
    have xw: "((W - y - 1) * W + x) * 4 + 4 \<le> W * W * 4"
      by (rule xor_fits[OF x y order_refl])
    have mw: "W * W * 4 + (W - y - 1) * getRowStride W + x div 8 < n"
      unfolding n_def by (rule and_fits[OF x y])
    have steps: "(\<exists>t'. xorPixel data W W y x t = Inr t' \<and> length t' = length t
                 \<and> (\<forall>i. i < ((W - y - 1) * W + x) * 4 \<or> ((W - y - 1) * W + x) * 4 + 4 \<le> i
                        \<longrightarrow> t' ! i = t ! i))
            \<and> (\<exists>t'. andPixel data (W * W * 4) W W y x t = Inr t' \<and> length t' = length t
                 \<and> (\<forall>i. i \<noteq> W * W * 4 + (W - y - 1) * getRowStride W + x div 8
                        \<longrightarrow> t' ! i = t ! i))"
      if t: "length t = n" for t
    proof -
      have fits: "((W - y - 1) * W + x) * 4 + 4 \<le> n" using xw by (simp add: n_def)
      from xorPixel_step[OF t fits, of data] obtain t1 where
        "xorPixel data W W y x t = Inr t1" "length t1 = n"
        "\<forall>i. i < ((W - y - 1) * W + x) * 4 \<or> ((W - y - 1) * W + x) * 4 + 4 \<le> i
              \<longrightarrow> t1 ! i = t ! i"
        by blast
      moreover from andPixel_step[OF t x mw, of data] obtain t2 where
        "andPixel data (W * W * 4) W W y x t = Inr t2" "length t2 = n"
        "\<forall>i. i \<noteq> W * W * 4 + (W - y - 1) * getRowStride W + x div 8 \<longrightarrow> t2 ! i = t ! i"
        by blast
      ultimately show ?thesis using t by simp
    qed
    show ?thesis
      using px rd xw mw steps unfolding n_def size by simp
  qed
  show ?thesis using 1 2 by blast
qed

theorem getDib_in_bounds_witness:
  "\<exists>dib. getDib [10, 20, 30, 255]
            \<lparr>info_format = ''raw'', info_width = 1, info_height = 1, info_size = 4\<rparr> = Inr dib
     \<and> length dib = 8"
  using getDib_in_bounds[of "\<lparr>info_format = ''raw'', info_width = 1, info_height = 1, info_size = 4\<rparr>"
      1 "[10, 20, 30, 255]"]
  by (simp add: getRowStride_def)

end
